theory Spec2Isabelle
  imports Complex_Main
begin

section \<open>JavaScript strings\<close>

text \<open>
  A JavaScript string is a sequence of UTF-16 code units; a code unit is modelled as a
  natural number. \<open>ascii\<close> turns an ASCII literal into such a sequence.
\<close>

type_synonym js_string = "nat list"

definition ascii :: "string \<Rightarrow> js_string" where
  "ascii s = map of_char s"

text \<open>\<open>Array.prototype.join\<close>.\<close>

fun js_join :: "js_string \<Rightarrow> js_string list \<Rightarrow> js_string" where
  "js_join sep [] = []"
| "js_join sep [x] = x"
| "js_join sep (x # y # ys) = x @ sep @ js_join sep (y # ys)"

text \<open>
  The characters matched by \<open>\s\<close> in a regular expression and removed by
  \<open>String.prototype.trim\<close>: the white space and line terminator code points.
\<close>

definition is_ws :: "nat \<Rightarrow> bool" where
  "is_ws c \<longleftrightarrow>
     c = 9 \<or> c = 10 \<or> c = 11 \<or> c = 12 \<or> c = 13 \<or> c = 32 \<or> c = 160 \<or> c = 5760 \<or>
     (8192 \<le> c \<and> c \<le> 8202) \<or> c = 8232 \<or> c = 8233 \<or> c = 8239 \<or> c = 8287 \<or>
     c = 12288 \<or> c = 65279"

definition js_trim :: "js_string \<Rightarrow> js_string" where
  "js_trim s = rev (dropWhile is_ws (rev (dropWhile is_ws s)))"

text \<open>
  \<open>split_at_first pat s\<close> cuts \<open>s\<close> around the leftmost occurrence of \<open>pat\<close>;
  \<open>js_includes\<close> is \<open>String.prototype.includes\<close>.
\<close>

fun split_at_first :: "js_string \<Rightarrow> js_string \<Rightarrow> (js_string \<times> js_string) option" where
  "split_at_first pat [] = (if pat = [] then Some ([], []) else None)"
| "split_at_first pat (c # cs) =
     (if take (length pat) (c # cs) = pat then Some ([], drop (length pat) (c # cs))
      else map_option (\<lambda>(a, b). (c # a, b)) (split_at_first pat cs))"

definition js_includes :: "js_string \<Rightarrow> js_string \<Rightarrow> bool" where
  "js_includes s pat \<longleftrightarrow> split_at_first pat s \<noteq> None"

definition ends_with :: "js_string \<Rightarrow> js_string \<Rightarrow> bool" where
  "ends_with s suffix \<longleftrightarrow> length suffix \<le> length s \<and> drop (length s - length suffix) s = suffix"

definition starts_with :: "js_string \<Rightarrow> js_string \<Rightarrow> bool" where
  "starts_with s p \<longleftrightarrow> take (length p) s = p"

text \<open>
  The functions of the runtime whose tables are not part of the repository:
  \<open>String.prototype.toLowerCase\<close>, \<open>String.prototype.normalize('NFD')\<close> and the
  conversion of a value to text inside a template literal. A value is a number or, for
  a lookup in an object literal under a name of \<open>Object.prototype\<close>, the function or
  object inherited under that name.
\<close>

datatype js_value = Number rat | Inherited js_string

record runtime =
  toLowerCase :: "js_string \<Rightarrow> js_string"
  normalizeNFD :: "js_string \<Rightarrow> js_string"
  toText :: "js_value \<Rightarrow> js_string"

section \<open>Normalizer (ingestion script)\<close>

subsection \<open>\<open>slugify\<close>\<close>

text \<open>
  The source lower-cases the text, normalizes it to NFD, deletes the combining marks
  U+0300 to U+036F, replaces every run matching \<open>[^a-z0-9]+\<close> by one hyphen and
  deletes the matches of \<open>(^-|-$)\<close>.
\<close>

definition alnum :: "nat \<Rightarrow> bool" where
  "alnum c \<longleftrightarrow> (97 \<le> c \<and> c \<le> 122) \<or> (48 \<le> c \<and> c \<le> 57)"

definition strip_diacritics :: "js_string \<Rightarrow> js_string" where
  "strip_diacritics s = filter (\<lambda>c. \<not> (768 \<le> c \<and> c \<le> 879)) s"

text \<open>Every maximal run of code units outside \<open>[a-z0-9]\<close> becomes one hyphen (code unit 45).\<close>

function collapse_non_alnum :: "js_string \<Rightarrow> js_string" where
  "collapse_non_alnum [] = []"
| "collapse_non_alnum (c # cs) =
     (if alnum c then c # collapse_non_alnum cs
      else 45 # collapse_non_alnum (dropWhile (\<lambda>d. \<not> alnum d) cs))"
  by pat_completeness auto
termination
  by (relation "measure length") (auto simp: length_dropWhile_le less_Suc_eq_le)

text \<open>
  \<open>/(^-|-$)/g\<close>: a hyphen at the very start is removed, then a hyphen at the very end of
  what follows; without the \<open>m\<close> flag the anchors match at the ends of the input only.
\<close>

definition trim_hyphens :: "js_string \<Rightarrow> js_string" where
  "trim_hyphens s =
     (let s1 = (case s of [] \<Rightarrow> [] | c # cs \<Rightarrow> if c = 45 then cs else s)
      in if s1 \<noteq> [] \<and> last s1 = 45 then butlast s1 else s1)"

definition slugify :: "runtime \<Rightarrow> js_string \<Rightarrow> js_string" where
  "slugify U text =
     trim_hyphens (collapse_non_alnum (strip_diacritics (normalizeNFD U (toLowerCase U text))))"

text \<open>
  The pattern \<open>^[a-z0-9]+(-[a-z0-9]+)*$\<close> as its automaton: the flag says whether the
  preceding code unit belongs to a group, which is also the accepting condition.
\<close>

fun slug_pattern_from :: "bool \<Rightarrow> js_string \<Rightarrow> bool" where
  "slug_pattern_from in_group [] = in_group"
| "slug_pattern_from in_group (c # cs) =
     (if alnum c then slug_pattern_from True cs
      else c = 45 \<and> in_group \<and> slug_pattern_from False cs)"

definition matches_slug_pattern :: "js_string \<Rightarrow> bool" where
  "matches_slug_pattern s = slug_pattern_from False s"

text \<open>
  Proof device: strings over \<open>[a-z0-9-]\<close> in which every hyphen is the last code unit or
  is followed by an alphanumeric one.
\<close>

fun single_hyphens :: "js_string \<Rightarrow> bool" where
  "single_hyphens [] = True"
| "single_hyphens [c] = (alnum c \<or> c = 45)"
| "single_hyphens (c # d # cs) = ((alnum c \<or> (c = 45 \<and> alnum d)) \<and> single_hyphens (d # cs))"

text \<open>
  A runtime for evaluating examples: lower-casing of the ASCII letters only, no
  decomposition, and a table with the text of the numbers the examples print.
\<close>

definition ascii_lower :: "nat \<Rightarrow> nat" where
  "ascii_lower c = (if 65 \<le> c \<and> c \<le> 90 then c + 32 else c)"

definition example_text :: "js_value \<Rightarrow> js_string" where
  "example_text v =
     (case v of
        Inherited k \<Rightarrow> k
      | Number q \<Rightarrow>
          (if q = 9 / 5 then ascii ''1.8'' else if q = 5 / 2 then ascii ''2.5''
           else if q = 7 / 2 then ascii ''3.5'' else if q = 9 / 2 then ascii ''4.5''
           else if q = 40416775 / 1000000 then ascii ''40.416775''
           else if q = - (370379 / 100000) then ascii ''-3.70379''
           else ascii ''0''))"

definition ascii_runtime :: runtime where
  "ascii_runtime = \<lparr> toLowerCase = map ascii_lower, normalizeNFD = (\<lambda>s. s),
      toText = example_text \<rparr>"

subsection \<open>\<open>priceLevelToEuros\<close>\<close>

text \<open>
  \<^verbatim>\<open>const mapping = { PRICE_LEVEL_FREE: 0, ..., PRICE_LEVEL_VERY_EXPENSIVE: 4.5 };\<close>
  \<^verbatim>\<open>return mapping[priceLevel] || 2.5;\<close>
  A missing price level is \<open>undefined\<close>, looked up under the key \<open>"undefined"\<close>. The
  object literal also answers for the names it inherits from \<open>Object.prototype\<close>, with
  a function or an object, which is truthy. \<open>||\<close> takes its right operand when the
  left one is \<open>undefined\<close> or \<open>0\<close>.
\<close>

definition mapping :: "(js_string \<times> rat) list" where
  "mapping =
     [(ascii ''PRICE_LEVEL_FREE'', 0),
      (ascii ''PRICE_LEVEL_INEXPENSIVE'', 9 / 5),
      (ascii ''PRICE_LEVEL_MODERATE'', 5 / 2),
      (ascii ''PRICE_LEVEL_EXPENSIVE'', 7 / 2),
      (ascii ''PRICE_LEVEL_VERY_EXPENSIVE'', 9 / 2)]"

definition object_prototype_names :: "js_string list" where
  "object_prototype_names =
     [ascii ''constructor'', ascii ''hasOwnProperty'', ascii ''isPrototypeOf'',
      ascii ''propertyIsEnumerable'', ascii ''toLocaleString'', ascii ''toString'',
      ascii ''valueOf'', ascii ''__proto__'', ascii ''__defineGetter__'',
      ascii ''__defineSetter__'', ascii ''__lookupGetter__'', ascii ''__lookupSetter__'']"

definition priceLevelToEuros :: "js_string option \<Rightarrow> js_value" where
  "priceLevelToEuros priceLevel =
     (let key = (case priceLevel of None \<Rightarrow> ascii ''undefined'' | Some k \<Rightarrow> k)
      in case map_of mapping key of
           Some v \<Rightarrow> if v = 0 then Number (5 / 2) else Number v
         | None \<Rightarrow> if key \<in> set object_prototype_names then Inherited key else Number (5 / 2))"

section \<open>Content files (refinement script)\<close>

datatype error = Error js_string

record mdx =
  frontmatter :: js_string
  body :: js_string

text \<open>
  \<open>parseMdx\<close>: the content must start with three hyphens and a line feed; the lazy
  first group ends at the leftmost line that holds three hyphens only; the rest, trimmed,
  is the body. No match throws.
\<close>

definition opening_fence :: js_string where
  "opening_fence = ascii ''---\<newline>''"

definition closing_fence :: js_string where
  "closing_fence = ascii ''\<newline>---\<newline>''"

definition parseMdx :: "js_string \<Rightarrow> error + mdx" where
  "parseMdx content =
     (if starts_with content opening_fence then
        (case split_at_first closing_fence (drop (length opening_fence) content) of
           None \<Rightarrow> Inl (Error (ascii ''Invalid MDX format - no frontmatter found''))
         | Some (fm, rest) \<Rightarrow> Inr \<lparr> frontmatter = fm, body = js_trim rest \<rparr>)
      else Inl (Error (ascii ''Invalid MDX format - no frontmatter found'')))"

text \<open>
  The header patterns all have the shape \<open>key\s*"[^"]*"\<close> or \<open>key\s*"([^"]+)"\<close>.
  \<open>match_field_here key least s\<close> matches one at the start of \<open>s\<close> and returns the
  matched text, the text between the quotes (code unit 34) and what follows the match;
  \<open>least\<close> is the least number of code units between the quotes. Neither a white
  space nor a code unit other than a quote is a quote, so the greedy stars never give
  back.
\<close>

definition match_field_here ::
  "js_string \<Rightarrow> nat \<Rightarrow> js_string \<Rightarrow> (js_string \<times> js_string \<times> js_string) option" where
  "match_field_here key least s =
     (if take (length key) s = key then
        (let r = drop (length key) s; w = takeWhile is_ws r
         in case dropWhile is_ws r of
              [] \<Rightarrow> None
            | q # r2 \<Rightarrow>
                if q = 34 then
                  (let v = takeWhile (\<lambda>c. c \<noteq> 34) r2
                   in case dropWhile (\<lambda>c. c \<noteq> 34) r2 of
                        [] \<Rightarrow> None
                      | q2 # r4 \<Rightarrow>
                          if least \<le> length v then Some (key @ w @ [34] @ v @ [34], v, r4)
                          else None)
                else None)
      else None)"

text \<open>The leftmost match: the text before it, the match, the quoted text, the text after.\<close>

fun find_field ::
  "js_string \<Rightarrow> nat \<Rightarrow> js_string \<Rightarrow>
     (js_string \<times> js_string \<times> js_string \<times> js_string) option" where
  "find_field key least [] = None"
| "find_field key least (c # cs) =
     (case match_field_here key least (c # cs) of
        Some (m, v, r) \<Rightarrow> Some ([], m, v, r)
      | None \<Rightarrow> map_option (\<lambda>(p, m, v, r). (c # p, m, v, r)) (find_field key least cs))"

text \<open>
  The replacement text of \<open>String.prototype.replace\<close> is a template: \<open>$$\<close> is a dollar
  sign (code unit 36), \<open>$&\<close> the match, \<open>$`\<close> the text before it, \<open>$'\<close> the text
  after it, \<open>$n\<close> and \<open>$nn\<close> the capture of that number when the pattern has one; any
  other dollar sign stands for itself.
\<close>

definition is_digit :: "nat \<Rightarrow> bool" where
  "is_digit c \<longleftrightarrow> 48 \<le> c \<and> c \<le> 57"

fun get_substitution ::
  "js_string \<Rightarrow> js_string \<Rightarrow> js_string \<Rightarrow> js_string list \<Rightarrow> js_string \<Rightarrow> js_string" where
  "get_substitution m pre post caps (c # d # r) =
     (if c \<noteq> 36 then c # get_substitution m pre post caps (d # r)
      else if d = 36 then 36 # get_substitution m pre post caps r
      else if d = 38 then m @ get_substitution m pre post caps r
      else if d = 96 then pre @ get_substitution m pre post caps r
      else if d = 39 then post @ get_substitution m pre post caps r
      else if is_digit d then
        (case r of
           [] \<Rightarrow> if 1 \<le> d - 48 \<and> d - 48 \<le> length caps then caps ! (d - 48 - 1) else [36, d]
         | e # r' \<Rightarrow>
             if is_digit e \<and> 1 \<le> 10 * (d - 48) + (e - 48) \<and>
                10 * (d - 48) + (e - 48) \<le> length caps
             then caps ! (10 * (d - 48) + (e - 48) - 1) @ get_substitution m pre post caps r'
             else if 1 \<le> d - 48 \<and> d - 48 \<le> length caps
             then caps ! (d - 48 - 1) @ get_substitution m pre post caps (e # r')
             else 36 # get_substitution m pre post caps (d # e # r'))
      else 36 # get_substitution m pre post caps (d # r))"
| "get_substitution m pre post caps t = t"

text \<open>
  \<open>s.replace(pattern, template)\<close> for a header pattern without the \<open>g\<close> flag: only the
  leftmost match is replaced, and a string without a match is returned as it is.
  \<open>whole_capture\<close> says whether the pattern is wrapped in a capture group.
\<close>

definition replace_field :: "js_string \<Rightarrow> bool \<Rightarrow> js_string \<Rightarrow> js_string \<Rightarrow> js_string" where
  "replace_field key whole_capture template s =
     (case find_field key 0 s of
        None \<Rightarrow> s
      | Some (pre, m, v, post) \<Rightarrow>
          pre @ get_substitution m pre post (if whole_capture then [m] else []) template @ post)"

definition author_key :: js_string where
  "author_key = ascii ''author:''"

definition title_key :: js_string where
  "title_key = ascii ''title:''"

definition neighborhood_key :: js_string where
  "neighborhood_key = ascii ''neighborhood:''"

text \<open>
  \<open>buildMdx\<close>. The author is patched in when the argument is truthy, that is a
  non-empty string (an argument left out behaves like the empty string).
\<close>

definition buildMdx :: "js_string \<Rightarrow> js_string \<Rightarrow> js_string \<Rightarrow> js_string" where
  "buildMdx fm bd author =
     (let newFrontmatter =
        (if author \<noteq> [] then
           (if js_includes fm author_key
            then replace_field author_key False (ascii ''author: '' @ [34] @ author @ [34]) fm
            else replace_field title_key True
                   (ascii ''$1\<newline>author: '' @ [34] @ author @ [34]) fm)
         else fm)
      in ascii ''---\<newline>'' @ newFrontmatter @ ascii ''\<newline>---\<newline>\<newline>'' @ bd @
         ascii ''\<newline>'')"

text \<open>
  The text of a header from its first line that starts with \<open>key\<close> on; \<open>None\<close> when
  no line does. Lines end with a line feed (code unit 10).
\<close>

function line_starting :: "js_string \<Rightarrow> js_string \<Rightarrow> js_string option" where
  "line_starting key s =
     (if starts_with s key then Some s
      else case dropWhile (\<lambda>c. c \<noteq> 10) s of
             [] \<Rightarrow> None
           | c # rest \<Rightarrow> line_starting key rest)"
  by pat_completeness auto
termination
proof (relation "measure (\<lambda>(key, s). length s)")
  show "wf (measure (\<lambda>(key, s). length s))" by simp
next
  fix key s :: js_string and c rest
  assume "dropWhile (\<lambda>c. c \<noteq> 10) s = c # rest"
  then have "length (c # rest) \<le> length s" by (metis length_dropWhile_le)
  then show "((key, rest), (key, s)) \<in> measure (\<lambda>(key, s). length s)" by simp
qed

text \<open>
  The author field of a header: the header's author key is the first line that starts
  with \<open>author:\<close>, and its value is the quoted text that follows the key there.
\<close>

definition author_field :: "js_string \<Rightarrow> js_string option" where
  "author_field fm =
     (case line_starting author_key fm of
        None \<Rightarrow> None
      | Some t \<Rightarrow> map_option (\<lambda>(m, v, r). v) (match_field_here author_key 0 t))"

text \<open>
  The patterns of \<open>buildMdx\<close> are not tied to the start of a line. The leftmost match
  of the author pattern is the header's author key when it starts a line and no line
  before it starts with \<open>author:\<close>; the leftmost match of the title pattern is a key
  when it starts a line.
\<close>

definition author_key_matched :: "js_string \<Rightarrow> bool" where
  "author_key_matched fm =
     (case find_field author_key 0 fm of
        None \<Rightarrow> False
      | Some (pre, m, v, post) \<Rightarrow>
          (pre = [] \<or> last pre = 10) \<and> line_starting author_key pre = None)"



text \<open>Proof device: \<open>pat\<close> occurs in \<open>s\<close> at index \<open>i\<close>.\<close>

definition occurs_at :: "js_string \<Rightarrow> nat \<Rightarrow> js_string \<Rightarrow> bool" where
  "occurs_at pat i s \<longleftrightarrow> take (length pat) (drop i s) = pat"


text \<open>A content file for the examples.\<close>

definition example_header :: js_string where
  "example_header =
     ascii ''title: '' @ [34] @ ascii ''Toma'' @ [34] @ ascii ''\<newline>author: '' @ [34] @
     ascii ''murad-madi'' @ [34] @ ascii ''\<newline>neighborhood: '' @ [34] @ ascii ''Sol'' @ [34]"

definition example_file :: js_string where
  "example_file = ascii ''---\<newline>'' @ example_header @ ascii ''\<newline>---\<newline>\<newline>Old text.\<newline>''"

text \<open>A header in which another key ends in \<open>author:\<close>.\<close>

definition coauthor_header :: js_string where
  "coauthor_header =
     ascii ''title: '' @ [34] @ ascii ''Toma'' @ [34] @ ascii ''\<newline>coauthor: '' @ [34] @
     ascii ''bob'' @ [34] @ ascii ''\<newline>author: '' @ [34] @ ascii ''murad-madi'' @ [34]"

section \<open>Ingestion script\<close>

subsection \<open>Data\<close>

text \<open>An entry of the ledger \<open>processed-spots.json\<close>.\<close>

record entry =
  uri :: js_string
  name :: js_string
  neighborhood :: js_string
  slug :: js_string
  processedAt :: js_string

text \<open>
  A place of the search response, with the fields the script reads; an absent field is
  \<open>None\<close>. \<open>displayName\<close> is \<open>place.displayName?.text\<close>, \<open>location\<close> the latitude
  and the longitude, each of which may be absent as well.
\<close>

record place =
  displayName :: "js_string option"
  googleMapsUri :: "js_string option"
  formattedAddress :: "js_string option"
  priceLevel :: "js_string option"
  rating :: "rat option"
  reviews :: "js_string list"
  location :: "(rat option \<times> rat option) option"

text \<open>The fields of a synthesis, each as the text a template literal prints for it.\<close>

record synthesis =
  wifi_speed :: js_string
  noise_level :: js_string
  plug_access :: js_string
  casi_score :: js_string
  review :: js_string

text \<open>
  The prompt of \<open>suggestNewQuery\<close> is a fixed text with two interpolations: the query
  and the listing of names.
\<close>

record suggestion_prompt =
  originalQuery :: js_string
  listing :: js_string

text \<open>
  The outside world. Its answers depend on the moment of the call (a counter of the
  calls made so far), so that the same request may be answered differently each time.
  \<open>fetchPlaces\<close> throws or returns the places; \<open>inferNeighborhoodWithGroq\<close> and
  \<open>cleanCafeNameWithGroq\<close> catch every failure and always return a string;
  \<open>synthesizeReview\<close> awaits the completion outside its \<open>try\<close> and so may throw (a
  reply that parses to a value without fields makes \<open>generateMdx\<close> throw at once, which
  is the same to the loop);
  \<open>suggestionReply\<close> is the completion requested by \<open>suggestNewQuery\<close>, with the
  message content when there is one; \<open>isoNow\<close> is \<open>new Date().toISOString()\<close>.
\<close>

record world =
  js :: runtime
  fetchPlaces :: "nat \<Rightarrow> js_string \<Rightarrow> error + place list"
  inferNeighborhoodWithGroq :: "nat \<Rightarrow> js_string \<Rightarrow> js_string \<Rightarrow> js_string"
  cleanCafeNameWithGroq :: "nat \<Rightarrow> js_string \<Rightarrow> js_string"
  synthesizeReview :: "nat \<Rightarrow> js_string \<Rightarrow> place \<Rightarrow> error + synthesis"
  suggestionReply :: "nat \<Rightarrow> suggestion_prompt \<Rightarrow> error + js_string option"
  isoNow :: "nat \<Rightarrow> js_string"

text \<open>The effects of a run, in order.\<close>

datatype event =
    Discover js_string
  | WriteFile js_string js_string
  | Suggest suggestion_prompt
  | SaveLedger "entry list"

text \<open>
  The state of a run: the ledger in memory, the set of its URIs, the ledger file (\<open>None\<close>
  when it is missing or does not parse), the effects so far and the call counter.
\<close>

record ingest =
  processedSpots :: "entry list"
  processedUris :: "js_string set"
  ledgerFile :: "entry list option"
  effects :: "event list"
  clock :: nat

subsection \<open>Ledger store\<close>

definition loadProcessedSpots :: "entry list option \<Rightarrow> entry list" where
  "loadProcessedSpots file = (case file of None \<Rightarrow> [] | Some spots \<Rightarrow> spots)"

definition saveProcessedSpots :: "entry list \<Rightarrow> ingest \<Rightarrow> ingest" where
  "saveProcessedSpots spots st =
     st\<lparr> ledgerFile := Some spots, effects := effects st @ [SaveLedger spots] \<rparr>"

subsection \<open>\<open>generateMdx\<close>\<close>

definition generateMdx ::
  "runtime \<Rightarrow> place \<Rightarrow> synthesis \<Rightarrow> js_string \<Rightarrow> js_string \<Rightarrow> js_string \<times> js_string" where
  "generateMdx U p syn hood cleanName =
     (let title = (if cleanName \<noteq> [] then cleanName
                   else case displayName p of
                          None \<Rightarrow> ascii ''Unknown Cafe''
                        | Some t \<Rightarrow> if t \<noteq> [] then t else ascii ''Unknown Cafe'');
          neighborhoodSlug = slugify U hood;
          cafeSlug = slugify U title;
          lat = (case location p of
                   Some (Some la, lo) \<Rightarrow> if la = 0 then 40416775 / 1000000 else la
                 | _ \<Rightarrow> 40416775 / 1000000);
          long = (case location p of
                    Some (la, Some lo) \<Rightarrow> if lo = 0 then - (370379 / 100000) else lo
                  | _ \<Rightarrow> - (370379 / 100000));
          coffeePrice = priceLevelToEuros (priceLevel p);
          header =
            ascii ''---\<newline>title: '' @ [34] @ title @ [34] @
            ascii ''\<newline>author: '' @ [34] @ ascii ''murad-madi'' @ [34] @
            ascii ''\<newline>neighborhood: '' @ [34] @ hood @ [34] @
            ascii ''\<newline>metrics:\<newline>  wifi_speed: '' @ [34] @ wifi_speed syn @ [34] @
            ascii ''\<newline>  noise_level: '' @ [34] @ noise_level syn @ [34] @
            ascii ''\<newline>  plug_access: '' @ plug_access syn @
            ascii ''\<newline>  coffee_price: '' @ toText U coffeePrice @
            ascii ''\<newline>  casi_score: '' @ casi_score syn @
            ascii ''\<newline>  coordinates:\<newline>    lat: '' @ toText U (Number lat) @
            ascii ''\<newline>    long: '' @ toText U (Number long) @
            ascii ''\<newline>---''
      in (neighborhoodSlug @ ascii ''-'' @ cafeSlug,
          header @ ascii ''\<newline>\<newline>'' @ review syn @ ascii ''\<newline>''))"

subsection \<open>\<open>suggestNewQuery\<close>\<close>

text \<open>
  The listing is \<open>processedNames.slice(0, 15).join('\n')\<close>. A failed request gives
  \<open>null\<close> (\<open>None\<close>); otherwise the content, or the empty string when there is none, is
  trimmed, loses its double quotes, is cut at the first line feed and trimmed again.
\<close>

definition seeded_names :: "js_string list \<Rightarrow> js_string list" where
  "seeded_names processedNames = take 15 processedNames"

definition build_suggestion_prompt :: "js_string \<Rightarrow> js_string list \<Rightarrow> suggestion_prompt" where
  "build_suggestion_prompt q processedNames =
     \<lparr> originalQuery = q, listing = js_join [10] (seeded_names processedNames) \<rparr>"

definition suggestNewQuery :: "world \<Rightarrow> nat \<Rightarrow> js_string \<Rightarrow> js_string list \<Rightarrow> js_string option" where
  "suggestNewQuery W t q processedNames =
     (case suggestionReply W t (build_suggestion_prompt q processedNames) of
        Inl e \<Rightarrow> None
      | Inr content \<Rightarrow>
          (let newQuery = (case content of None \<Rightarrow> [] | Some c \<Rightarrow> js_trim c)
           in Some (js_trim (takeWhile (\<lambda>c. c \<noteq> 10) (filter (\<lambda>c. c \<noteq> 34) newQuery)))))"

subsection \<open>\<open>processPlaces\<close>\<close>

record batch_result =
  newCount :: nat
  skippedCount :: nat
  skippedNames :: "js_string list"

text \<open>\<open>place.displayName?.text || 'Unknown'\<close> and \<open>place.googleMapsUri || ''\<close>.\<close>

definition place_name :: "place \<Rightarrow> js_string" where
  "place_name p =
     (case displayName p of
        None \<Rightarrow> ascii ''Unknown''
      | Some t \<Rightarrow> if t \<noteq> [] then t else ascii ''Unknown'')"

definition place_uri :: "place \<Rightarrow> js_string" where
  "place_uri p = (case googleMapsUri p of None \<Rightarrow> [] | Some g \<Rightarrow> g)"

text \<open>
  What the loop does with a new place once it is enriched: the file is written, the
  entry is pushed, the URI is added to the set.
\<close>

definition add_place ::
  "world \<Rightarrow> place \<Rightarrow> js_string \<Rightarrow> js_string \<Rightarrow> synthesis \<Rightarrow> ingest \<Rightarrow> ingest" where
  "add_place W p hood cleanName syn st =
     (case generateMdx (js W) p syn hood cleanName of
        (sl, content) \<Rightarrow>
          st\<lparr> effects := effects st @ [WriteFile (sl @ ascii ''.mdx'') content],
              processedSpots := processedSpots st @
                [\<lparr> uri = place_uri p, name = place_name p, neighborhood = hood, slug = sl,
                   processedAt = isoNow W (clock st) \<rparr>],
              processedUris := insert (place_uri p) (processedUris st),
              clock := clock st + 1 \<rparr>)"

text \<open>
  The loop over the places, with the counters and the state passed along. A place
  whose URI is in the set is counted and skipped; any other one is enriched, written
  and recorded. An exception of \<open>synthesizeReview\<close> ends the loop with what was done
  before it.
\<close>

fun processPlaces_loop ::
  "world \<Rightarrow> place list \<Rightarrow> batch_result \<Rightarrow> ingest \<Rightarrow> (error + batch_result) \<times> ingest" where
  "processPlaces_loop W [] r st = (Inr r, st)"
| "processPlaces_loop W (p # ps) r st =
     (if place_uri p \<in> processedUris st then
        processPlaces_loop W ps
          (r\<lparr> skippedCount := skippedCount r + 1,
             skippedNames := skippedNames r @ [place_name p] \<rparr>) st
      else
        (let hood = inferNeighborhoodWithGroq W (clock st) (place_name p)
                      (case formattedAddress p of None \<Rightarrow> [] | Some a \<Rightarrow> a);
             cleanName = cleanCafeNameWithGroq W (clock st) (place_name p)
         in case synthesizeReview W (clock st) cleanName p of
              Inl e \<Rightarrow> (Inl e, st\<lparr> clock := clock st + 1 \<rparr>)
            | Inr syn \<Rightarrow>
                processPlaces_loop W ps (r\<lparr> newCount := newCount r + 1 \<rparr>)
                  (add_place W p hood cleanName syn st)))"

definition processPlaces :: "world \<Rightarrow> place list \<Rightarrow> ingest \<Rightarrow> (error + batch_result) \<times> ingest" where
  "processPlaces W places st =
     processPlaces_loop W places \<lparr> newCount = 0, skippedCount = 0, skippedNames = [] \<rparr> st"

subsection \<open>\<open>main\<close>\<close>

text \<open>
  \<open>skippedCount / places.length\<close>: the quotient of two counts is a rational number,
  \<open>NaN\<close> for \<open>0 / 0\<close> and \<open>Infinity\<close> for a positive count over 0. \<open>NaN > 0.5\<close> is false.
\<close>

datatype quotient = NaN | Infinity | Finite rat

definition duplicateRatio :: "nat \<Rightarrow> nat \<Rightarrow> quotient" where
  "duplicateRatio skipped candidates =
     (if candidates = 0 then (if skipped = 0 then NaN else Infinity)
      else Finite (of_nat skipped / of_nat candidates))"

definition greater_than :: "quotient \<Rightarrow> rat \<Rightarrow> bool" where
  "greater_than x bound = (case x of NaN \<Rightarrow> False | Infinity \<Rightarrow> True | Finite q \<Rightarrow> bound < q)"

definition MAX_RETRIES :: nat where
  "MAX_RETRIES = 3"

record run_report =
  reportedNew :: nat
  reportedSkipped :: nat
  reportedRetries :: nat

text \<open>The two requests of the loop, as effects: the search and the suggestion.\<close>

definition discovered :: "js_string \<Rightarrow> ingest \<Rightarrow> ingest" where
  "discovered q st = st\<lparr> effects := effects st @ [Discover q], clock := clock st + 1 \<rparr>"

definition asked :: "js_string \<Rightarrow> js_string list \<Rightarrow> ingest \<Rightarrow> ingest" where
  "asked q names st =
     st\<lparr> effects := effects st @ [Suggest (build_suggestion_prompt q names)],
         clock := clock st + 1 \<rparr>"

text \<open>
  The \<open>while\<close> loop of \<open>main\<close>. The result is the exception that ended the run or the
  totals printed at the end, with the state reached.
\<close>

function main_loop ::
  "world \<Rightarrow> js_string list \<Rightarrow> js_string \<Rightarrow> nat \<Rightarrow> nat \<Rightarrow> nat \<Rightarrow> ingest \<Rightarrow>
     (error + run_report) \<times> ingest" where
  "main_loop W processedNames query retryCount totalNew totalSkipped st =
     (if retryCount < MAX_RETRIES then
        (case fetchPlaces W (clock st) query of
           Inl e \<Rightarrow> (Inl e, discovered query st)
         | Inr places \<Rightarrow>
             (case processPlaces W places (discovered query st) of
                (Inl e, st2) \<Rightarrow> (Inl e, st2)
              | (Inr r, st2) \<Rightarrow>
                  if greater_than (duplicateRatio (skippedCount r) (length places)) (1 / 2) \<and>
                     newCount r < 5 \<and> retryCount < MAX_RETRIES - 1
                  then
                    (case suggestNewQuery W (clock st2) query (processedNames @ skippedNames r) of
                       None \<Rightarrow>
                         (Inr \<lparr> reportedNew = totalNew + newCount r,
                                reportedSkipped = totalSkipped + skippedCount r,
                                reportedRetries = retryCount \<rparr>,
                          asked query (processedNames @ skippedNames r) st2)
                     | Some newQuery \<Rightarrow>
                         if newQuery \<noteq> [] \<and> newQuery \<noteq> query then
                           main_loop W processedNames newQuery (retryCount + 1)
                             (totalNew + newCount r) (totalSkipped + skippedCount r)
                             (asked query (processedNames @ skippedNames r) st2)
                         else
                           (Inr \<lparr> reportedNew = totalNew + newCount r,
                                  reportedSkipped = totalSkipped + skippedCount r,
                                  reportedRetries = retryCount \<rparr>,
                            asked query (processedNames @ skippedNames r) st2))
                  else
                    (Inr \<lparr> reportedNew = totalNew + newCount r,
                           reportedSkipped = totalSkipped + skippedCount r,
                           reportedRetries = retryCount \<rparr>, st2)))
      else
        (Inr \<lparr> reportedNew = totalNew, reportedSkipped = totalSkipped,
               reportedRetries = retryCount \<rparr>, st))"
  by pat_completeness auto
termination
  by (relation "measure (\<lambda>(W, processedNames, query, retryCount, totalNew, totalSkipped, st).
        MAX_RETRIES - retryCount)") auto

text \<open>
  \<open>main\<close>: the query is the first argument or, when that is missing or empty, the
  default; the ledger is loaded once; after the loop, when nothing was thrown, it is
  saved.
\<close>

definition initial_query :: "js_string option \<Rightarrow> js_string" where
  "initial_query argument =
     (case argument of
        None \<Rightarrow> ascii ''Laptop friendly specialty coffee madrid''
      | Some a \<Rightarrow> if a \<noteq> [] then a else ascii ''Laptop friendly specialty coffee madrid'')"

definition main :: "world \<Rightarrow> js_string option \<Rightarrow> entry list option \<Rightarrow> (error + run_report) \<times> ingest" where
  "main W argument file =
     (let query = initial_query argument;
          spots = loadProcessedSpots file
      in case main_loop W (map name spots) query 0 0 0
                \<lparr> processedSpots = spots, processedUris = set (map uri spots),
                  ledgerFile = file, effects = [], clock = 0 \<rparr> of
           (Inl e, st) \<Rightarrow> (Inl e, st)
         | (Inr report, st) \<Rightarrow> (Inr report, saveProcessedSpots (processedSpots st) st))"

subsection \<open>The candidates skipped in a round\<close>


subsection \<open>Proof devices\<close>

text \<open>The kinds of effects, and the invariant that links the ledger in memory to the set.\<close>

definition is_save :: "event \<Rightarrow> bool" where
  "is_save ev = (case ev of SaveLedger l \<Rightarrow> True | _ \<Rightarrow> False)"

definition is_discover :: "event \<Rightarrow> bool" where
  "is_discover ev = (case ev of Discover q \<Rightarrow> True | _ \<Rightarrow> False)"

definition is_write :: "event \<Rightarrow> bool" where
  "is_write ev = (case ev of WriteFile f c \<Rightarrow> True | _ \<Rightarrow> False)"

definition ledger_ok :: "ingest \<Rightarrow> bool" where
  "ledger_ok st \<longleftrightarrow>
     processedUris st = set (map uri (processedSpots st)) \<and> distinct (map uri (processedSpots st))"

text \<open>
  A later state of the same run: the ledger file is the same, the ledger in memory and
  the effects have grown, the new effects hold no save.
\<close>

definition advances :: "ingest \<Rightarrow> ingest \<Rightarrow> bool" where
  "advances st st' \<longleftrightarrow>
     ledgerFile st' = ledgerFile st \<and>
     (ledger_ok st \<longrightarrow> ledger_ok st') \<and>
     (\<exists>xs. effects st' = effects st @ xs \<and> \<not> list_ex is_save xs) \<and>
     (\<exists>new. processedSpots st' = processedSpots st @ new)"

section \<open>An example run\<close>

text \<open>
  A ledger with two entries; a search whose first answer holds the two known places and
  a new one, and whose later answers are empty; a suggestion that differs from the
  query.
\<close>

definition example_place :: "string \<Rightarrow> string \<Rightarrow> place" where
  "example_place nm u =
     \<lparr> displayName = Some (ascii nm), googleMapsUri = Some (ascii u), formattedAddress = None,
       priceLevel = None, rating = None, reviews = [], location = None \<rparr>"

definition example_entry :: "string \<Rightarrow> string \<Rightarrow> entry" where
  "example_entry nm u =
     \<lparr> uri = ascii u, name = ascii nm, neighborhood = ascii ''Sol'', slug = ascii ''sol-x'',
       processedAt = ascii ''2024-01-01T00:00:00.000Z'' \<rparr>"

definition example_ledger :: "entry list" where
  "example_ledger = [example_entry ''Uno'' ''u1'', example_entry ''Dos'' ''u2'']"

definition example_batch :: "place list" where
  "example_batch =
     [example_place ''Uno'' ''u1'', example_place ''Dos'' ''u2'', example_place ''Tres'' ''u3'']"

definition example_synthesis :: synthesis where
  "example_synthesis =
     \<lparr> wifi_speed = ascii ''reliable'', noise_level = ascii ''hum'', plug_access = ascii ''true'',
       casi_score = ascii ''7'', review = ascii ''## The Vibe'' \<rparr>"

definition example_world :: world where
  "example_world =
     \<lparr> js = ascii_runtime,
       fetchPlaces = (\<lambda>t q. if t = 0 then Inr example_batch else Inr []),
       inferNeighborhoodWithGroq = (\<lambda>t nm a. ascii ''Sol''),
       cleanCafeNameWithGroq = (\<lambda>t nm. nm),
       synthesizeReview = (\<lambda>t nm p. Inr example_synthesis),
       suggestionReply = (\<lambda>t p. Inr (Some (ascii ''quiet cafes''))),
       isoNow = (\<lambda>t. ascii ''2024-05-01T10:00:00.000Z'') \<rparr>"

definition example_state :: ingest where
  "example_state =
     \<lparr> processedSpots = example_ledger, processedUris = set (map uri example_ledger),
       ledgerFile = Some example_ledger, effects = [], clock = 0 \<rparr>"

definition example_query :: js_string where
  "example_query = ascii ''cafes''"

text \<open>A world whose search finds nothing, and fifteen known names.\<close>

definition empty_world :: world where
  "empty_world = example_world\<lparr> fetchPlaces := (\<lambda>t q. Inr []) \<rparr>"


text \<open>
  The reading of the claim that the ledger is written after each batch, on the effects of
  a run: no search starts while the batch of the search before it is unsaved, and the
  run does not end so. The flag says whether a batch is waiting for its save.
\<close>

fun saved_per_batch :: "bool \<Rightarrow> event list \<Rightarrow> bool" where
  "saved_per_batch pending [] = (\<not> pending)"
| "saved_per_batch pending (Discover q # evs) = (\<not> pending \<and> saved_per_batch True evs)"
| "saved_per_batch pending (SaveLedger l # evs) = saved_per_batch False evs"
| "saved_per_batch pending (WriteFile f c # evs) = saved_per_batch pending evs"
| "saved_per_batch pending (Suggest p # evs) = saved_per_batch pending evs"

text \<open>The first round of the example run: its counters and the state after it.\<close>

definition example_result :: batch_result where
  "example_result = \<lparr> newCount = 1, skippedCount = 2, skippedNames = [ascii ''Uno'', ascii ''Dos''] \<rparr>"

definition example_after_batch :: ingest where
  "example_after_batch =
     snd (processPlaces example_world example_batch (discovered example_query example_state))"

section \<open>Refinement script\<close>

text \<open>An entry of the ledger \<open>refined-spots.json\<close>.\<close>

record refined_entry =
  filename :: js_string
  spotName :: js_string
  refinedAt :: js_string

definition loadRefinedSpots :: "refined_entry list option \<Rightarrow> refined_entry list" where
  "loadRefinedSpots file = (case file of None \<Rightarrow> [] | Some spots \<Rightarrow> spots)"

text \<open>
  The prompt of \<open>refineReview\<close> is a fixed text around the name of the spot, its
  neighborhood and the current review.
\<close>

record refine_prompt =
  promptSpot :: js_string
  promptNeighborhood :: js_string
  promptReview :: js_string

text \<open>
  The outside world of the script, by the moment of the call: the completion (which may
  throw, and may have no content), \<open>Math.random()\<close> and the time.
\<close>

record refine_world =
  completionReply :: "nat \<Rightarrow> refine_prompt \<Rightarrow> error + js_string option"
  random :: "nat \<Rightarrow> rat"
  refinedNow :: "nat \<Rightarrow> js_string"

definition selectRandomAuthor :: "rat \<Rightarrow> js_string" where
  "selectRandomAuthor rand =
     (if rand < 40 / 100 then ascii ''murad''
      else if rand < 55 / 100 then ascii ''isabella''
      else if rand < 70 / 100 then ascii ''mikelia''
      else if rand < 85 / 100 then ascii ''sara''
      else ascii ''robert'')"

definition refineReview ::
  "refine_world \<Rightarrow> nat \<Rightarrow> js_string \<Rightarrow> js_string \<Rightarrow> js_string \<Rightarrow> error + js_string" where
  "refineReview R t spot hood currentReview =
     (case completionReply R t
             \<lparr> promptSpot = spot, promptNeighborhood = hood, promptReview = currentReview \<rparr> of
        Inl e \<Rightarrow> Inl e
      | Inr content \<Rightarrow>
          (let refined = (case content of None \<Rightarrow> [] | Some c \<Rightarrow> js_trim c)
           in Inr (if starts_with refined (ascii ''##'') then refined
                   else ascii ''## The Vibe\<newline>\<newline>'' @ refined)))"

text \<open>\<open>s.replace(pat, '')\<close> for a string pattern: the first occurrence is removed.\<close>

definition remove_first :: "js_string \<Rightarrow> js_string \<Rightarrow> js_string" where
  "remove_first pat s = (case split_at_first pat s of None \<Rightarrow> s | Some (a, b) \<Rightarrow> a @ b)"

text \<open>
  The state of a run: the files of the spots directory by name, the ledger file, the
  ledger in memory, the number of files refined and the call counter.
\<close>

record refine =
  spotFiles :: "js_string \<rightharpoonup> js_string"
  refinedFile :: "refined_entry list option"
  refinedSpots :: "refined_entry list"
  processed :: nat
  refineClock :: nat

text \<open>
  The loop over the files. Whatever is thrown for a file (it cannot be read, it does
  not parse, the completion fails) is caught and the loop goes on with the next file.
  A refined file is written back; outside the single-file mode its entry is pushed and
  the ledger is saved at once. The wait between two files changes nothing in the
  state.
\<close>

fun refine_loop :: "refine_world \<Rightarrow> bool \<Rightarrow> js_string list \<Rightarrow> refine \<Rightarrow> refine" where
  "refine_loop R single [] st = st"
| "refine_loop R single (f # fs) st =
     (case spotFiles st f of
        None \<Rightarrow> refine_loop R single fs (st\<lparr> refineClock := refineClock st + 1 \<rparr>)
      | Some content \<Rightarrow>
          (case parseMdx content of
             Inl e \<Rightarrow> refine_loop R single fs (st\<lparr> refineClock := refineClock st + 1 \<rparr>)
           | Inr parsed \<Rightarrow>
               (let spot = (case find_field title_key 1 (frontmatter parsed) of
                              None \<Rightarrow> remove_first (ascii ''.mdx'') f
                            | Some (p, m, v, r) \<Rightarrow> v);
                    hood = (case find_field neighborhood_key 1 (frontmatter parsed) of
                              None \<Rightarrow> ascii ''Madrid''
                            | Some (p, m, v, r) \<Rightarrow> v);
                    author = selectRandomAuthor (random R (refineClock st))
                in case refineReview R (refineClock st) spot hood (body parsed) of
                     Inl e \<Rightarrow> refine_loop R single fs (st\<lparr> refineClock := refineClock st + 1 \<rparr>)
                   | Inr refinedBody \<Rightarrow>
                       refine_loop R single fs
                         (if single then
                            st\<lparr> spotFiles := (spotFiles st)
                                  (f \<mapsto> buildMdx (frontmatter parsed) refinedBody author),
                                processed := processed st + 1,
                                refineClock := refineClock st + 1 \<rparr>
                          else
                            st\<lparr> spotFiles := (spotFiles st)
                                  (f \<mapsto> buildMdx (frontmatter parsed) refinedBody author),
                                refinedSpots := refinedSpots st @
                                  [\<lparr> filename = f, spotName = spot,
                                     refinedAt = refinedNow R (refineClock st) \<rparr>],
                                refinedFile := Some (refinedSpots st @
                                  [\<lparr> filename = f, spotName = spot,
                                     refinedAt = refinedNow R (refineClock st) \<rparr>]),
                                processed := processed st + 1,
                                refineClock := refineClock st + 1 \<rparr>))))"

text \<open>
  \<open>main\<close> of the script, from its argument, the listing of the spots directory, the
  files and the ledger file. With an argument one file is refined and the ledger is left
  alone; the process exits with status 1 when that file does not exist. Without one,
  the files of the listing that end in \<open>.mdx\<close>, are not the example and are not in the
  ledger are refined.
\<close>

datatype refine_outcome = Exited nat | Refined nat

definition refine_main ::
  "refine_world \<Rightarrow> js_string option \<Rightarrow> js_string list \<Rightarrow> (js_string \<rightharpoonup> js_string) \<Rightarrow>
     refined_entry list option \<Rightarrow> refine_outcome \<times> refine" where
  "refine_main R argument dir files ledger =
     (let st0 = \<lparr> spotFiles = files, refinedFile = ledger, refinedSpots = [], processed = 0,
                  refineClock = 0 \<rparr>
      in case (case argument of None \<Rightarrow> None | Some a \<Rightarrow> if a \<noteq> [] then Some a else None) of
           Some singleFile \<Rightarrow>
             (let f = (if ends_with singleFile (ascii ''.mdx'') then singleFile
                       else singleFile @ ascii ''.mdx'')
              in if files f = None then (Exited 1, st0)
                 else (let st = refine_loop R True [f] st0 in (Refined (processed st), st)))
         | None \<Rightarrow>
             (let fs = filter (\<lambda>f. f \<noteq> ascii ''example-spot.mdx'')
                         (filter (\<lambda>f. ends_with f (ascii ''.mdx'')) dir);
                  refinedSet = set (map filename (loadRefinedSpots ledger));
                  filesToProcess = filter (\<lambda>f. f \<notin> refinedSet) fs
              in if filesToProcess = [] then (Refined 0, st0)
                 else (let st = refine_loop R False filesToProcess
                                  (st0\<lparr> refinedSpots := loadRefinedSpots ledger \<rparr>)
                       in (Refined (processed st), st))))"

section \<open>Runs one after another\<close>

text \<open>
  Each run of a script loads the ledger file the run before it left. A run of the
  ingestion script comes with its world and its argument; a run of the refinement
  script also with the listing and the files of the spots directory at that time.
\<close>

fun ingest_runs :: "(world \<times> js_string option) list \<Rightarrow> entry list option \<Rightarrow> entry list option" where
  "ingest_runs [] file = file"
| "ingest_runs ((W, argument) # runs) file =
     ingest_runs runs (ledgerFile (snd (main W argument file)))"

fun refine_runs ::
  "(refine_world \<times> js_string option \<times> js_string list \<times> (js_string \<rightharpoonup> js_string)) list \<Rightarrow>
     refined_entry list option \<Rightarrow> refined_entry list option" where
  "refine_runs [] ledger = ledger"
| "refine_runs ((R, argument, dir, files) # runs) ledger =
     refine_runs runs (refinedFile (snd (refine_main R argument dir files ledger)))"

text \<open>A search that returns the same new place twice, and a directory of two files.\<close>

definition twice_batch :: "place list" where
  "twice_batch = [example_place ''Tres'' ''u3'', example_place ''Tres'' ''u3'']"

definition twice_world :: world where
  "twice_world = example_world\<lparr> fetchPlaces := (\<lambda>t q. Inr twice_batch) \<rparr>"

definition example_refine_world :: refine_world where
  "example_refine_world =
     \<lparr> completionReply = (\<lambda>t p. Inr (Some (ascii ''## First Impressions''))),
       random = (\<lambda>t. 1 / 2),
       refinedNow = (\<lambda>t. ascii ''2024-06-01T10:00:00.000Z'') \<rparr>"

definition example_dir :: "js_string list" where
  "example_dir = [ascii ''sol-toma.mdx'', ascii ''sol-uno.mdx'']"

definition example_refined :: "refined_entry list" where
  "example_refined =
     [\<lparr> filename = ascii ''sol-uno.mdx'', spotName = ascii ''Uno'',
        refinedAt = ascii ''2024-05-01T10:00:00.000Z'' \<rparr>]"

text \<open>
  Proof device: the ledger in memory is what the ledger file holds, its file names are
  distinct, and the files still to refine are distinct and not among them.
\<close>

definition refine_ok :: "js_string list \<Rightarrow> refine \<Rightarrow> bool" where
  "refine_ok fs st \<longleftrightarrow>
     loadRefinedSpots (refinedFile st) = refinedSpots st \<and>
     distinct (map filename (refinedSpots st)) \<and>
     distinct fs \<and> set fs \<inter> set (map filename (refinedSpots st)) = {}"

section \<open>Properties of the normalizer\<close>

subsection \<open>Shape of a slug\<close>

lemma not_alnum_hyphen [simp]: "\<not> alnum 45" by (simp add: alnum_def)

lemma collapse_head: "collapse_non_alnum (dropWhile (\<lambda>d. \<not> alnum d) cs) = [] \<or>
   alnum (hd (collapse_non_alnum (dropWhile (\<lambda>d. \<not> alnum d) cs)))"
  by (induction cs) auto

lemma single_hyphens_Cons_hyphen: "single_hyphens s \<Longrightarrow> s = [] \<or> alnum (hd s) \<Longrightarrow> single_hyphens (45 # s)"
  by (cases s) auto

lemma single_hyphens_Cons_alnum: "single_hyphens s \<Longrightarrow> alnum c \<Longrightarrow> single_hyphens (c # s)"
  by (cases s) auto

lemma single_hyphens_collapse: "single_hyphens (collapse_non_alnum s)"
proof (induction s rule: collapse_non_alnum.induct)
  case 1 show ?case by simp
next
  case (2 c cs)
  show ?case
  proof (cases "alnum c")
    case True with 2 show ?thesis by (simp add: single_hyphens_Cons_alnum)
  next
    case False
    with 2 have "single_hyphens (collapse_non_alnum (dropWhile (\<lambda>d. \<not> alnum d) cs))" by simp
    with collapse_head[of cs] False show ?thesis by (simp add: single_hyphens_Cons_hyphen)
  qed
qed

lemma single_hyphens_tl: "single_hyphens (c # s) \<Longrightarrow> single_hyphens s"
  by (cases s) auto

lemma single_hyphens_butlast: "single_hyphens s \<Longrightarrow> single_hyphens (butlast s)"
  by (induction s rule: single_hyphens.induct) (auto split: if_splits)

lemma single_hyphens_last:
  "single_hyphens s \<Longrightarrow> last s = 45 \<Longrightarrow> butlast s \<noteq> [] \<Longrightarrow> alnum (last (butlast s))"
  by (induction s rule: single_hyphens.induct) (auto split: if_splits)

lemma hd_butlast: "butlast s \<noteq> [] \<Longrightarrow> hd (butlast s) = hd s"
  by (cases s) (auto split: if_splits)

lemma pattern_of_single_hyphens:
  "single_hyphens s \<Longrightarrow> s \<noteq> [] \<Longrightarrow> b \<or> alnum (hd s) \<Longrightarrow> last s \<noteq> 45 \<Longrightarrow> slug_pattern_from b s"
proof (induction s arbitrary: b rule: single_hyphens.induct)
  case 1 then show ?case by simp
next
  case (2 c) then show ?case by auto
next
  case (3 c d cs)
  then show ?case by (auto split: if_splits)
qed

lemma trim_hyphens_shape:
  assumes "single_hyphens s"
  shows "trim_hyphens s = [] \<or>
     (single_hyphens (trim_hyphens s) \<and> alnum (hd (trim_hyphens s)) \<and> last (trim_hyphens s) \<noteq> 45)"
proof -
  define s1 where "s1 = (case s of [] \<Rightarrow> [] | c # cs \<Rightarrow> if c = 45 then cs else s)"
  have t: "trim_hyphens s = (if s1 \<noteq> [] \<and> last s1 = 45 then butlast s1 else s1)"
    by (simp add: trim_hyphens_def s1_def Let_def)
  have s1: "single_hyphens s1" using assms
    by (cases s) (auto simp: s1_def dest: single_hyphens_tl)
  have h1: "s1 = [] \<or> alnum (hd s1)" using assms
  proof (cases s)
    case Nil then show ?thesis by (simp add: s1_def)
  next
    case (Cons c cs)
    then show ?thesis using assms by (cases cs) (auto simp: s1_def)
  qed
  show ?thesis
  proof (cases "s1 \<noteq> [] \<and> last s1 = 45")
    case True
    then have r: "trim_hyphens s = butlast s1" using t by simp
    show ?thesis
    proof (cases "butlast s1 = []")
      case True then show ?thesis using r by simp
    next
      case False
      have "alnum (last (butlast s1))" using single_hyphens_last[OF s1] True False by simp
      then have "last (butlast s1) \<noteq> 45" by auto
      moreover have "alnum (hd (butlast s1))" using h1 True False by (simp add: hd_butlast)
      moreover have "single_hyphens (butlast s1)" using s1 by (rule single_hyphens_butlast)
      ultimately show ?thesis using r by simp
    qed
  next
    case False
    then have r: "trim_hyphens s = s1" using t by auto
    show ?thesis using False h1 s1 r by auto
  qed
qed

lemma collapse_fixed:
  "single_hyphens s \<Longrightarrow> collapse_non_alnum s = s"
proof (induction s rule: single_hyphens.induct)
  case 1 show ?case by simp
next
  case (2 c) then show ?case by auto
next
  case (3 c d cs)
  then show ?case by auto
qed

lemma trim_hyphens_fixed:
  "s = [] \<or> (alnum (hd s) \<and> last s \<noteq> 45) \<Longrightarrow> trim_hyphens s = s"
  by (cases s) (auto simp: trim_hyphens_def)

lemma single_hyphens_chars: "single_hyphens s \<Longrightarrow> c \<in> set s \<Longrightarrow> alnum c \<or> c = 45"
  by (induction s rule: single_hyphens.induct) auto

lemma strip_diacritics_fixed: "\<forall>c\<in>set s. alnum c \<or> c = 45 \<Longrightarrow> strip_diacritics s = s"
  unfolding strip_diacritics_def by (rule filter_True) (auto simp: alnum_def)

lemma slugify_shape:
  "slugify U x = [] \<or> (single_hyphens (slugify U x) \<and> alnum (hd (slugify U x)) \<and> last (slugify U x) \<noteq> 45)"
  unfolding slugify_def by (rule trim_hyphens_shape) (rule single_hyphens_collapse)

lemma ascii_lower_fixed: "alnum c \<or> c = 45 \<Longrightarrow> ascii_lower c = c"
  by (auto simp: ascii_lower_def alnum_def)

text \<open>
  Claim C7. For every input \<open>x\<close>, \<open>slugify (slugify x) = slugify x\<close>, and \<open>slugify x\<close>
  is empty or matches \<open>^[a-z0-9]+(-[a-z0-9]+)*$\<close>. The runtime's lower-casing and NFD
  normalization enter through what they do to strings over \<open>[a-z0-9-]\<close>, which
  they leave as they are.
\<close>

theorem slugify_idempotent_pattern:
  assumes lower: "\<forall>s. (\<forall>c\<in>set s. alnum c \<or> c = 45) \<longrightarrow> toLowerCase U s = s"
      and nfd: "\<forall>s. (\<forall>c\<in>set s. alnum c \<or> c = 45) \<longrightarrow> normalizeNFD U s = s"
  shows "slugify U (slugify U x) = slugify U x \<and>
         (slugify U x = [] \<or> matches_slug_pattern (slugify U x))"
proof -
  let ?r = "slugify U x"
  show ?thesis
  proof (cases "?r = []")
    case True
    have "\<forall>c\<in>set ([]::js_string). alnum c \<or> c = 45" by simp
    with lower nfd have "toLowerCase U [] = []" "normalizeNFD U [] = []" by blast+
    then have "slugify U [] = []"
      by (simp add: slugify_def strip_diacritics_def trim_hyphens_def)
    with True show ?thesis by simp
  next
    case False
    with slugify_shape[of U x]
    have sh: "single_hyphens ?r" and hd: "alnum (hd ?r)" and la: "last ?r \<noteq> 45" by auto
    have chars: "\<forall>c\<in>set ?r. alnum c \<or> c = 45" using sh by (auto dest: single_hyphens_chars)
    have "toLowerCase U ?r = ?r" "normalizeNFD U ?r = ?r" using lower nfd chars by blast+
    moreover have "strip_diacritics ?r = ?r" using chars by (rule strip_diacritics_fixed)
    moreover have "collapse_non_alnum ?r = ?r" using sh by (rule collapse_fixed)
    moreover have "trim_hyphens ?r = ?r" using hd la by (simp add: trim_hyphens_fixed)
    ultimately have "slugify U ?r = ?r" by (simp add: slugify_def)
    moreover have "matches_slug_pattern ?r"
      unfolding matches_slug_pattern_def using sh False hd la by (simp add: pattern_of_single_hyphens)
    ultimately show ?thesis by simp
  qed
qed



theorem slugify_idempotent_pattern_witness:
  "slugify ascii_runtime [67, 97, 102, 101, 769, 32, 32, 82, 105, 769, 111, 33] = ascii ''cafe-rio'' \<and>
   slugify ascii_runtime (ascii ''cafe-rio'') = ascii ''cafe-rio'' \<and>
   matches_slug_pattern (ascii ''cafe-rio'')"
proof -
  have l: "\<forall>s. (\<forall>c\<in>set s. alnum c \<or> c = 45) \<longrightarrow> toLowerCase ascii_runtime s = s"
    by (auto simp: ascii_runtime_def ascii_lower_fixed intro: map_idI)
  have n: "\<forall>s. (\<forall>c\<in>set s. alnum c \<or> c = 45) \<longrightarrow> normalizeNFD ascii_runtime s = s"
    by (simp add: ascii_runtime_def)
  have v: "slugify ascii_runtime [67, 97, 102, 101, 769, 32, 32, 82, 105, 769, 111, 33] = ascii ''cafe-rio''"
    by (simp add: slugify_def ascii_runtime_def ascii_lower_def strip_diacritics_def alnum_def
         trim_hyphens_def ascii_def)
  from slugify_idempotent_pattern[OF l n, of "[67, 97, 102, 101, 769, 32, 32, 82, 105, 769, 111, 33]"]
  show ?thesis unfolding v by (simp add: ascii_def)
qed

subsection \<open>Price levels\<close>

lemma priceLevelToEuros_paid_tiers:
  "priceLevelToEuros (Some (ascii ''PRICE_LEVEL_INEXPENSIVE'')) = Number (9 / 5) \<and>
   priceLevelToEuros (Some (ascii ''PRICE_LEVEL_MODERATE'')) = Number (5 / 2) \<and>
   priceLevelToEuros (Some (ascii ''PRICE_LEVEL_EXPENSIVE'')) = Number (7 / 2) \<and>
   priceLevelToEuros (Some (ascii ''PRICE_LEVEL_VERY_EXPENSIVE'')) = Number (9 / 2) \<and>
   priceLevelToEuros None = Number (5 / 2)"
  by (simp add: priceLevelToEuros_def mapping_def ascii_def object_prototype_names_def)

text \<open>
  Claim C2. The table gives 0 for \<open>PRICE_LEVEL_FREE\<close>, but 0 is falsy and \<open>||\<close> replaces
  it by the default: the free tier is priced 2.5, not 0.
\<close>

theorem priceLevelToEuros_free:
  "priceLevelToEuros (Some (ascii ''PRICE_LEVEL_FREE'')) = Number (5 / 2) \<and>
   map_of mapping (ascii ''PRICE_LEVEL_FREE'') = Some 0"
  by (simp add: priceLevelToEuros_def mapping_def ascii_def)

section \<open>Properties of the content-file functions\<close>

text \<open>
  Claim C10. When the header has neither a quoted author field nor a quoted title field,
  \<open>buildMdx\<close> with a non-empty author leaves the header as it is: no author is added.
\<close>

theorem buildMdx_no_field:
  assumes "author \<noteq> []"
      and "find_field author_key 0 fm = None"
      and "find_field title_key 0 fm = None"
  shows "buildMdx fm bd author =
           ascii ''---\<newline>'' @ fm @ ascii ''\<newline>---\<newline>\<newline>'' @ bd @ ascii ''\<newline>''"
  using assms by (simp add: buildMdx_def replace_field_def)

theorem buildMdx_no_field_witness:
  "ascii ''sara'' \<noteq> [] \<and>
   find_field author_key 0 (ascii ''author: sara'') = None \<and>
   find_field title_key 0 (ascii ''author: sara'') = None \<and>
   buildMdx (ascii ''author: sara'') (ascii ''## Hi'') (ascii ''sara'') =
     ascii ''---\<newline>author: sara\<newline>---\<newline>\<newline>## Hi\<newline>''"
proof -
  have a: "ascii ''sara'' \<noteq> []" by (simp add: ascii_def)
  have b: "find_field author_key 0 (ascii ''author: sara'') = None"
    by (simp add: match_field_here_def author_key_def ascii_def is_ws_def)
  have c: "find_field title_key 0 (ascii ''author: sara'') = None"
    by (simp add: match_field_here_def title_key_def ascii_def)
  from buildMdx_no_field[OF a b c, of "ascii ''## Hi''"] a b c
  show ?thesis by (simp add: ascii_def)
qed

subsection \<open>Occurrences and the leftmost split\<close>

lemma occurs_at_nth:
  assumes "occurs_at pat i s" and "k < length pat"
  shows "i + k < length s \<and> s ! (i + k) = pat ! k"
proof -
  from assms(1) have eq: "take (length pat) (drop i s) = pat" by (simp add: occurs_at_def)
  have "length (take (length pat) (drop i s)) = length pat" using eq by simp
  then have "length pat \<le> length s - i" by simp
  with assms(2) have b: "i + k < length s" by linarith
  have "pat ! k = take (length pat) (drop i s) ! k" using eq by simp
  also have "\<dots> = s ! (i + k)" using assms(2) b by simp
  finally show ?thesis using b by simp
qed



lemma occurs_at_bound:
  assumes "occurs_at pat i s" and "pat \<noteq> []"
  shows "i + length pat \<le> length s"
proof -
  from assms(2) have "length pat - 1 < length pat" by simp
  from occurs_at_nth[OF assms(1) this] show ?thesis by linarith
qed




subsection \<open>Trimming\<close>



lemma is_ws_line_feed [simp]: "is_ws 10"
  by (simp add: is_ws_def)


subsection \<open>The closing fence\<close>


lemma opening_fence_code: "opening_fence = [45, 45, 45, 10]"
  by (simp add: opening_fence_def ascii_def)







subsection \<open>Header fields\<close>


lemma title_key_code: "title_key = [116, 105, 116, 108, 101, 58]"
  by (simp add: title_key_def ascii_def)

lemma not_ws_quote [simp]: "\<not> is_ws 34"
  by (simp add: is_ws_def)

lemma match_field_here_SomeD:
  assumes "match_field_here key n s = Some (m, v, r)"
  shows "\<exists>w. m = key @ w @ [34] @ v @ [34] \<and> s = m @ r \<and> (\<forall>c\<in>set w. is_ws c) \<and>
             34 \<notin> set v \<and> n \<le> length v"
proof -
  define r0 where "r0 = drop (length key) s"
  from assms have k: "take (length key) s = key"
    by (auto simp: match_field_here_def split: if_splits)
  from assms k obtain r2 where d1: "dropWhile is_ws r0 = 34 # r2"
    by (auto simp: match_field_here_def Let_def r0_def split: list.splits if_splits)
  from assms k d1 obtain q2 where d2: "dropWhile (\<lambda>c. c \<noteq> 34) r2 = q2 # r"
    and v: "v = takeWhile (\<lambda>c. c \<noteq> 34) r2"
    and m: "m = key @ takeWhile is_ws r0 @ [34] @ v @ [34]"
    and n: "n \<le> length v"
    by (auto simp: match_field_here_def Let_def r0_def split: list.splits if_splits)
  from d2 have q: "q2 = 34" by (auto simp: dropWhile_eq_Cons_conv)
  have s1: "s = key @ r0" using k r0_def by (metis append_take_drop_id)
  have s2: "r0 = takeWhile is_ws r0 @ 34 # r2" using d1 by (metis takeWhile_dropWhile_id)
  have s3: "r2 = v @ 34 # r" using d2 v q by (metis takeWhile_dropWhile_id)
  have "s = m @ r" using s1 s2 s3 m by (metis append.assoc append_Cons append_Nil)
  moreover have "\<forall>c\<in>set (takeWhile is_ws r0). is_ws c" by (auto dest: set_takeWhileD)
  moreover have "34 \<notin> set v" unfolding v by (auto dest: set_takeWhileD)
  ultimately show ?thesis using m n by blast
qed



lemma find_field_SomeI:
  assumes "match_field_here key n t = Some (m, v, r)"
  shows "\<forall>i<length p. match_field_here key n (drop i (p @ t)) = None \<Longrightarrow>
         find_field key n (p @ t) = Some (p, m, v, r)"
proof (induction p)
  case Nil
  from match_field_here_SomeD[OF assms] obtain c cs where "t = c # cs" by (cases t) auto
  with assms show ?case by simp
next
  case (Cons x p)
  from Cons.prems have "match_field_here key n (drop 0 ((x # p) @ t)) = None" by blast
  then have n0: "match_field_here key n (x # p @ t) = None" by simp
  have "\<forall>i<length p. match_field_here key n (drop i (p @ t)) = None"
  proof (intro allI impI)
    fix i assume "i < length p"
    then have "match_field_here key n (drop (Suc i) ((x # p) @ t)) = None"
      using Cons.prems by (metis Suc_less_eq length_Cons)
    then show "match_field_here key n (drop i (p @ t)) = None" by simp
  qed
  from Cons.IH[OF this] n0 show ?case by simp
qed





declare line_starting.simps [simp del]







subsection \<open>Rewriting a content file\<close>















text \<open>
  Where the leftmost match of the author pattern is not the author key, \<open>buildMdx\<close>
  rewrites what it hits: here the value of \<open>coauthor\<close>, and the author key keeps its
  value.
\<close>

lemma buildMdx_hits_coauthor:
  "\<not> author_key_matched coauthor_header \<and>
   buildMdx coauthor_header (ascii ''x'') (ascii ''sara'') =
     ascii ''---\<newline>title: '' @ [34] @ ascii ''Toma'' @ [34] @ ascii ''\<newline>coauthor: '' @ [34] @
     ascii ''sara'' @ [34] @ ascii ''\<newline>author: '' @ [34] @ ascii ''murad-madi'' @ [34] @
     ascii ''\<newline>---\<newline>\<newline>x\<newline>'' \<and>
   author_field
     (ascii ''title: '' @ [34] @ ascii ''Toma'' @ [34] @ ascii ''\<newline>coauthor: '' @ [34] @
      ascii ''sara'' @ [34] @ ascii ''\<newline>author: '' @ [34] @ ascii ''murad-madi'' @ [34])
     = Some (ascii ''murad-madi'')"
  by (simp add: author_key_matched_def buildMdx_def js_includes_def replace_field_def
      match_field_here_def author_field_def author_key_def title_key_def coauthor_header_def
      ascii_def is_ws_def is_digit_def line_starting.simps starts_with_def)

section \<open>Properties of the ingestion script\<close>

subsection \<open>One batch\<close>

lemma add_place_fields:
  "ledgerFile (add_place W p hood cn syn st) = ledgerFile st"
  "processedUris (add_place W p hood cn syn st) = insert (place_uri p) (processedUris st)"
  "\<exists>en. processedSpots (add_place W p hood cn syn st) = processedSpots st @ [en] \<and> uri en = place_uri p"
  "\<exists>f c. effects (add_place W p hood cn syn st) = effects st @ [WriteFile f c]"
  by (auto simp: add_place_def split: prod.splits)

lemma loop_skip:
  "place_uri p \<in> processedUris st \<Longrightarrow>
   processPlaces_loop W (p # ps) r st =
     processPlaces_loop W ps
       (r\<lparr> skippedCount := skippedCount r + 1,
          skippedNames := skippedNames r @ [place_name p] \<rparr>) st"
  by simp

lemma loop_throw:
  "place_uri p \<notin> processedUris st \<Longrightarrow>
   synthesizeReview W (clock st) (cleanCafeNameWithGroq W (clock st) (place_name p)) p = Inl e \<Longrightarrow>
   processPlaces_loop W (p # ps) r st = (Inl e, st\<lparr> clock := clock st + 1 \<rparr>)"
  by (simp add: Let_def)

lemma loop_new:
  "place_uri p \<notin> processedUris st \<Longrightarrow>
   synthesizeReview W (clock st) (cleanCafeNameWithGroq W (clock st) (place_name p)) p = Inr syn \<Longrightarrow>
   processPlaces_loop W (p # ps) r st =
     processPlaces_loop W ps (r\<lparr> newCount := newCount r + 1 \<rparr>)
       (add_place W p
          (inferNeighborhoodWithGroq W (clock st) (place_name p)
             (case formattedAddress p of None \<Rightarrow> [] | Some a \<Rightarrow> a))
          (cleanCafeNameWithGroq W (clock st) (place_name p)) syn st)"
  by (simp add: Let_def)

declare processPlaces_loop.simps(2) [simp del]

lemma loop_counts:
  "processPlaces_loop W ps r st = (Inr r', st') \<Longrightarrow>
     newCount r' + skippedCount r' = newCount r + skippedCount r + length ps"
proof (induction ps arbitrary: r st)
  case Nil
  then show ?case by simp
next
  case (Cons p ps)
  show ?case
  proof (cases "place_uri p \<in> processedUris st")
    case True
    from Cons.prems have "processPlaces_loop W ps
       (r\<lparr> skippedCount := skippedCount r + 1,
          skippedNames := skippedNames r @ [place_name p] \<rparr>) st = (Inr r', st')"
      by (simp add: loop_skip[OF True])
    from Cons.IH[OF this] show ?thesis by simp
  next
    case False
    show ?thesis
    proof (cases "synthesizeReview W (clock st) (cleanCafeNameWithGroq W (clock st) (place_name p)) p")
      case (Inl e)
      with False Cons.prems show ?thesis by (simp add: loop_throw)
    next
      case (Inr syn)
      from Cons.prems obtain s1 where
        "processPlaces_loop W ps (r\<lparr> newCount := newCount r + 1 \<rparr>) s1 = (Inr r', st')"
        by (simp add: loop_new[OF False Inr])
      from Cons.IH[OF this] show ?thesis by simp
    qed
  qed
qed

lemma loop_append:
  "processPlaces_loop W (xs @ ys) r st =
     (case processPlaces_loop W xs r st of
        (Inl e, s) \<Rightarrow> (Inl e, s)
      | (Inr r1, s1) \<Rightarrow> processPlaces_loop W ys r1 s1)"
proof (induction xs arbitrary: r st)
  case Nil
  show ?case by simp
next
  case (Cons p ps)
  show ?case
  proof (cases "place_uri p \<in> processedUris st")
    case True
    then show ?thesis using Cons.IH by (simp add: loop_skip)
  next
    case False
    show ?thesis
    proof (cases "synthesizeReview W (clock st) (cleanCafeNameWithGroq W (clock st) (place_name p)) p")
      case (Inl e)
      with False show ?thesis by (simp add: loop_throw)
    next
      case (Inr syn)
      with False show ?thesis using Cons.IH by (simp add: loop_new)
    qed
  qed
qed

lemma loop_uris_grow:
  "processPlaces_loop W ps r st = (out, st') \<Longrightarrow> processedUris st \<subseteq> processedUris st'"
proof (induction ps arbitrary: r st)
  case Nil
  then show ?case by simp
next
  case (Cons p ps)
  show ?case
  proof (cases "place_uri p \<in> processedUris st")
    case True
    with Cons.prems Cons.IH show ?thesis by (simp add: loop_skip)
  next
    case False
    show ?thesis
    proof (cases "synthesizeReview W (clock st) (cleanCafeNameWithGroq W (clock st) (place_name p)) p")
      case (Inl e)
      with False Cons.prems show ?thesis by (auto simp: loop_throw)
    next
      case (Inr syn)
      with False Cons.prems obtain hood cn where
        "processPlaces_loop W ps (r\<lparr> newCount := newCount r + 1 \<rparr>) (add_place W p hood cn syn st) = (out, st')"
        by (auto simp: loop_new)
      from Cons.IH[OF this] show ?thesis by (auto simp: add_place_fields)
    qed
  qed
qed

lemma loop_ledgerFile:
  "processPlaces_loop W ps r st = (out, st') \<Longrightarrow> ledgerFile st' = ledgerFile st"
proof (induction ps arbitrary: r st)
  case Nil
  then show ?case by auto
next
  case (Cons p ps)
  show ?case
  proof (cases "place_uri p \<in> processedUris st")
    case True
    with Cons.prems Cons.IH show ?thesis by (simp add: loop_skip)
  next
    case False
    show ?thesis
    proof (cases "synthesizeReview W (clock st) (cleanCafeNameWithGroq W (clock st) (place_name p)) p")
      case (Inl e)
      with False Cons.prems show ?thesis by (auto simp: loop_throw)
    next
      case (Inr syn)
      with False Cons.prems obtain hood cn where
        "processPlaces_loop W ps (r\<lparr> newCount := newCount r + 1 \<rparr>) (add_place W p hood cn syn st) = (out, st')"
        by (auto simp: loop_new)
      from Cons.IH[OF this] show ?thesis by (simp add: add_place_fields)
    qed
  qed
qed

lemma loop_effects:
  "processPlaces_loop W ps r st = (out, st') \<Longrightarrow>
     \<exists>ws. effects st' = effects st @ ws \<and> (\<forall>ev\<in>set ws. is_write ev)"
proof (induction ps arbitrary: r st)
  case Nil
  then show ?case by auto
next
  case (Cons p ps)
  show ?case
  proof (cases "place_uri p \<in> processedUris st")
    case True
    with Cons.prems Cons.IH show ?thesis by (simp add: loop_skip)
  next
    case False
    show ?thesis
    proof (cases "synthesizeReview W (clock st) (cleanCafeNameWithGroq W (clock st) (place_name p)) p")
      case (Inl e)
      with False Cons.prems show ?thesis by (auto simp: loop_throw)
    next
      case (Inr syn)
      with False Cons.prems obtain hood cn where
        "processPlaces_loop W ps (r\<lparr> newCount := newCount r + 1 \<rparr>) (add_place W p hood cn syn st) = (out, st')"
        by (auto simp: loop_new)
      from Cons.IH[OF this] obtain ws where
        ws: "effects st' = effects (add_place W p hood cn syn st) @ ws" "\<forall>ev\<in>set ws. is_write ev"
        by blast
      from add_place_fields(4)[of W p hood cn syn st] obtain f c where
        "effects (add_place W p hood cn syn st) = effects st @ [WriteFile f c]" by blast
      with ws have "effects st' = effects st @ (WriteFile f c # ws)"
        "\<forall>ev\<in>set (WriteFile f c # ws). is_write ev" by (simp_all add: is_write_def)
      then show ?thesis by blast
    qed
  qed
qed

lemma loop_spots:
  "processPlaces_loop W ps r st = (out, st') \<Longrightarrow>
     \<exists>new. processedSpots st' = processedSpots st @ new \<and>
           (case out of Inl e \<Rightarrow> True | Inr r' \<Rightarrow> newCount r' = newCount r + length new)"
proof (induction ps arbitrary: r st)
  case Nil
  then have "processedSpots st' = processedSpots st @ [] \<and>
    (case out of Inl e \<Rightarrow> True | Inr r' \<Rightarrow> newCount r' = newCount r + length ([]::entry list))"
    by auto
  then show ?case by (rule exI)
next
  case (Cons p ps)
  show ?case
  proof (cases "place_uri p \<in> processedUris st")
    case True
    with Cons.prems have "processPlaces_loop W ps
          (r\<lparr> skippedCount := skippedCount r + 1,
             skippedNames := skippedNames r @ [place_name p] \<rparr>) st = (out, st')"
      by (simp add: loop_skip)
    from Cons.IH[OF this] obtain new where
      "processedSpots st' = processedSpots st @ new"
      "case out of Inl e \<Rightarrow> True | Inr r' \<Rightarrow> newCount r' =
         newCount (r\<lparr> skippedCount := skippedCount r + 1,
             skippedNames := skippedNames r @ [place_name p] \<rparr>) + length new"
      by blast
    then have "processedSpots st' = processedSpots st @ new \<and>
      (case out of Inl e \<Rightarrow> True | Inr r' \<Rightarrow> newCount r' = newCount r + length new)"
      by (cases out) simp_all
    then show ?thesis by (rule exI)
  next
    case False
    show ?thesis
    proof (cases "synthesizeReview W (clock st) (cleanCafeNameWithGroq W (clock st) (place_name p)) p")
      case (Inl e)
      with False Cons.prems have "out = Inl e" "st' = st\<lparr> clock := clock st + 1 \<rparr>"
        by (simp_all add: loop_throw)
      then have "processedSpots st' = processedSpots st @ [] \<and>
        (case out of Inl e \<Rightarrow> True | Inr r' \<Rightarrow> newCount r' = newCount r + length ([]::entry list))"
        by simp
      then show ?thesis by (rule exI)
    next
      case (Inr syn)
      with False Cons.prems obtain hood cn where
        "processPlaces_loop W ps (r\<lparr> newCount := newCount r + 1 \<rparr>) (add_place W p hood cn syn st) = (out, st')"
        by (simp add: loop_new)
      from Cons.IH[OF this] obtain new where
        n: "processedSpots st' = processedSpots (add_place W p hood cn syn st) @ new"
           "case out of Inl e \<Rightarrow> True | Inr r' \<Rightarrow> newCount r' =
              newCount (r\<lparr> newCount := newCount r + 1 \<rparr>) + length new"
        by blast
      from add_place_fields(3)[of W p hood cn syn st] obtain en where
        "processedSpots (add_place W p hood cn syn st) = processedSpots st @ [en]" by blast
      with n have "processedSpots st' = processedSpots st @ (en # new) \<and>
        (case out of Inl e \<Rightarrow> True | Inr r' \<Rightarrow> newCount r' = newCount r + length (en # new))"
        by (cases out) simp_all
      then show ?thesis by (rule exI)
    qed
  qed
qed

lemma add_place_ledger_ok:
  assumes "ledger_ok st" and "place_uri p \<notin> processedUris st"
  shows "ledger_ok (add_place W p hood cn syn st)"
proof -
  from add_place_fields(3)[of W p hood cn syn st] obtain en where
    e: "processedSpots (add_place W p hood cn syn st) = processedSpots st @ [en]" "uri en = place_uri p"
    by blast
  with assms show ?thesis by (auto simp: ledger_ok_def add_place_fields(2))
qed

lemma loop_ledger_ok:
  "processPlaces_loop W ps r st = (out, st') \<Longrightarrow> ledger_ok st \<Longrightarrow> ledger_ok st'"
proof (induction ps arbitrary: r st)
  case Nil
  then show ?case by auto
next
  case (Cons p ps)
  show ?case
  proof (cases "place_uri p \<in> processedUris st")
    case True
    with Cons.prems Cons.IH show ?thesis by (simp add: loop_skip)
  next
    case False
    show ?thesis
    proof (cases "synthesizeReview W (clock st) (cleanCafeNameWithGroq W (clock st) (place_name p)) p")
      case (Inl e)
      with False Cons.prems show ?thesis by (auto simp: loop_throw ledger_ok_def)
    next
      case (Inr syn)
      with False Cons.prems obtain hood cn where
        "processPlaces_loop W ps (r\<lparr> newCount := newCount r + 1 \<rparr>) (add_place W p hood cn syn st) = (out, st')"
        by (auto simp: loop_new)
      from Cons.IH[OF this add_place_ledger_ok[OF Cons.prems(2) False]] show ?thesis .
    qed
  qed
qed

text \<open>
  Claim C1. When a batch is processed, the new and the skipped candidates add up to the
  batch; and a candidate whose URI is in the set when the loop reaches it leaves the
  state as it is (no file written, no entry pushed): only the counter of skipped
  candidates and their names change. The set when a candidate is reached holds the set
  of the ledger at the start of the batch and the URIs of the candidates added before
  it.
\<close>

theorem processPlaces_dedup:
  "(\<forall>r st'. processPlaces W places st = (Inr r, st') \<longrightarrow>
       newCount r + skippedCount r = length places) \<and>
   (\<forall>i ra sa. i < length places \<longrightarrow>
       processPlaces W (take i places) st = (Inr ra, sa) \<longrightarrow>
       processedUris st \<subseteq> processedUris sa \<and>
       (place_uri (places ! i) \<in> processedUris sa \<longrightarrow>
          processPlaces W (take (Suc i) places) st =
            (Inr (ra\<lparr> skippedCount := skippedCount ra + 1,
                      skippedNames := skippedNames ra @ [place_name (places ! i)] \<rparr>), sa)))"
proof (intro conjI allI impI)
  fix r st'
  assume "processPlaces W places st = (Inr r, st')"
  from loop_counts[OF this[unfolded processPlaces_def]] show "newCount r + skippedCount r = length places"
    by simp
next
  fix i ra sa
  assume "processPlaces W (take i places) st = (Inr ra, sa)"
  from loop_uris_grow[OF this[unfolded processPlaces_def]]
  show "processedUris st \<subseteq> processedUris sa" .
next
  fix i ra sa
  assume i: "i < length places" and u: "place_uri (places ! i) \<in> processedUris sa"
    and a: "processPlaces W (take i places) st = (Inr ra, sa)"
  have "take (Suc i) places = take i places @ [places ! i]"
    using i by (rule take_Suc_conv_app_nth)
  with u show "processPlaces W (take (Suc i) places) st =
         (Inr (ra\<lparr> skippedCount := skippedCount ra + 1,
                   skippedNames := skippedNames ra @ [place_name (places ! i)] \<rparr>), sa)"
    using a by (simp add: processPlaces_def loop_append loop_skip)
qed

subsection \<open>The retry loop\<close>

declare main_loop.simps [simp del]

lemma main_loop_cases [case_names stop fetch_error batch_error finished give_up retry]:
  obtains
    (stop) "\<not> retryCount < MAX_RETRIES"
      "main_loop W names q retryCount tn ts st =
         (Inr \<lparr> reportedNew = tn, reportedSkipped = ts, reportedRetries = retryCount \<rparr>, st)"
  | (fetch_error) e where "retryCount < MAX_RETRIES" "fetchPlaces W (clock st) q = Inl e"
      "main_loop W names q retryCount tn ts st = (Inl e, discovered q st)"
  | (batch_error) places e st2 where "retryCount < MAX_RETRIES"
      "fetchPlaces W (clock st) q = Inr places"
      "processPlaces W places (discovered q st) = (Inl e, st2)"
      "main_loop W names q retryCount tn ts st = (Inl e, st2)"
  | (finished) places r st2 where "retryCount < MAX_RETRIES"
      "fetchPlaces W (clock st) q = Inr places"
      "processPlaces W places (discovered q st) = (Inr r, st2)"
      "\<not> (greater_than (duplicateRatio (skippedCount r) (length places)) (1 / 2) \<and>
          newCount r < 5 \<and> retryCount < MAX_RETRIES - 1)"
      "main_loop W names q retryCount tn ts st =
         (Inr \<lparr> reportedNew = tn + newCount r, reportedSkipped = ts + skippedCount r,
                reportedRetries = retryCount \<rparr>, st2)"
  | (give_up) places r st2 where "retryCount < MAX_RETRIES"
      "fetchPlaces W (clock st) q = Inr places"
      "processPlaces W places (discovered q st) = (Inr r, st2)"
      "greater_than (duplicateRatio (skippedCount r) (length places)) (1 / 2) \<and>
          newCount r < 5 \<and> retryCount < MAX_RETRIES - 1"
      "case suggestNewQuery W (clock st2) q (names @ skippedNames r) of
         None \<Rightarrow> True | Some nq \<Rightarrow> \<not> (nq \<noteq> [] \<and> nq \<noteq> q)"
      "main_loop W names q retryCount tn ts st =
         (Inr \<lparr> reportedNew = tn + newCount r, reportedSkipped = ts + skippedCount r,
                reportedRetries = retryCount \<rparr>, asked q (names @ skippedNames r) st2)"
  | (retry) places r st2 nq where "retryCount < MAX_RETRIES"
      "fetchPlaces W (clock st) q = Inr places"
      "processPlaces W places (discovered q st) = (Inr r, st2)"
      "greater_than (duplicateRatio (skippedCount r) (length places)) (1 / 2) \<and>
          newCount r < 5 \<and> retryCount < MAX_RETRIES - 1"
      "suggestNewQuery W (clock st2) q (names @ skippedNames r) = Some nq"
      "nq \<noteq> [] \<and> nq \<noteq> q"
      "main_loop W names q retryCount tn ts st =
         main_loop W names nq (retryCount + 1) (tn + newCount r) (ts + skippedCount r)
           (asked q (names @ skippedNames r) st2)"
proof (cases "retryCount < MAX_RETRIES")
  case False
  then have "main_loop W names q retryCount tn ts st =
         (Inr \<lparr> reportedNew = tn, reportedSkipped = ts, reportedRetries = retryCount \<rparr>, st)"
    by (subst main_loop.simps) simp
  with False show ?thesis by (rule stop)
next
  case budget: True
  show ?thesis
  proof (cases "fetchPlaces W (clock st) q")
    case (Inl e)
    with budget have "main_loop W names q retryCount tn ts st = (Inl e, discovered q st)"
      by (subst main_loop.simps) simp
    with budget Inl show ?thesis by (rule fetch_error)
  next
    case (Inr places)
    obtain out st2 where pp: "processPlaces W places (discovered q st) = (out, st2)"
      by (cases "processPlaces W places (discovered q st)") auto
    show ?thesis
    proof (cases out)
      case (Inl e)
      with pp Inr budget have "main_loop W names q retryCount tn ts st = (Inl e, st2)"
        by (subst main_loop.simps) simp
      with budget Inr pp Inl show ?thesis by (intro batch_error[of places e st2]) simp_all
    next
      case r: (Inr r)
      show ?thesis
      proof (cases "greater_than (duplicateRatio (skippedCount r) (length places)) (1 / 2) \<and>
          newCount r < 5 \<and> retryCount < MAX_RETRIES - 1")
        case False
        with pp r Inr budget have "main_loop W names q retryCount tn ts st =
           (Inr \<lparr> reportedNew = tn + newCount r, reportedSkipped = ts + skippedCount r,
                  reportedRetries = retryCount \<rparr>, st2)"
          by (subst main_loop.simps) auto
        with budget Inr pp r False show ?thesis by (intro finished[of places r st2]) simp_all
      next
        case cond: True
        show ?thesis
        proof (cases "suggestNewQuery W (clock st2) q (names @ skippedNames r)")
          case None
          with pp r Inr budget cond have "main_loop W names q retryCount tn ts st =
             (Inr \<lparr> reportedNew = tn + newCount r, reportedSkipped = ts + skippedCount r,
                reportedRetries = retryCount \<rparr>, asked q (names @ skippedNames r) st2)"
            by (subst main_loop.simps) simp
          with budget Inr pp r cond None show ?thesis
            by (intro give_up[of places r st2]) simp_all
        next
          case (Some nq)
          show ?thesis
          proof (cases "nq \<noteq> [] \<and> nq \<noteq> q")
            case True
            with Some pp r Inr budget cond have "main_loop W names q retryCount tn ts st =
               main_loop W names nq (retryCount + 1) (tn + newCount r) (ts + skippedCount r)
                 (asked q (names @ skippedNames r) st2)"
              by (subst main_loop.simps) simp
            with budget Inr pp r cond Some True show ?thesis
              by (intro retry[of places r st2 nq]) simp_all
          next
            case False
            with Some pp r Inr budget cond have "main_loop W names q retryCount tn ts st =
               (Inr \<lparr> reportedNew = tn + newCount r, reportedSkipped = ts + skippedCount r,
                  reportedRetries = retryCount \<rparr>, asked q (names @ skippedNames r) st2)"
              by (subst main_loop.simps) auto
            with budget Inr pp r cond Some False show ?thesis
              by (intro give_up[of places r st2]) simp_all
          qed
        qed
      qed
    qed
  qed
qed

lemma advances_refl: "advances st st"
proof -
  have "effects st = effects st @ [] \<and> \<not> list_ex is_save []" by simp
  moreover have "processedSpots st = processedSpots st @ []" by simp
  ultimately show ?thesis unfolding advances_def by blast
qed

lemma advances_trans:
  assumes "advances a b" and "advances b c"
  shows "advances a c"
proof -
  from assms obtain xs ys where
    x: "effects b = effects a @ xs" "\<not> list_ex is_save xs"
    and y: "effects c = effects b @ ys" "\<not> list_ex is_save ys"
    unfolding advances_def by blast
  from assms obtain n1 n2 where
    n: "processedSpots b = processedSpots a @ n1" "processedSpots c = processedSpots b @ n2"
    unfolding advances_def by blast
  have "effects c = effects a @ (xs @ ys) \<and> \<not> list_ex is_save (xs @ ys)"
    using x y by (auto simp: list_ex_iff)
  moreover have "processedSpots c = processedSpots a @ (n1 @ n2)" using n by simp
  moreover have "ledgerFile c = ledgerFile a" "ledger_ok a \<longrightarrow> ledger_ok c"
    using assms unfolding advances_def by auto
  ultimately show ?thesis unfolding advances_def by blast
qed

lemma advances_discovered: "advances st (discovered q st)"
proof -
  have "effects (discovered q st) = effects st @ [Discover q] \<and> \<not> list_ex is_save [Discover q]"
    by (simp add: discovered_def is_save_def)
  moreover have "processedSpots (discovered q st) = processedSpots st @ []"
    by (simp add: discovered_def)
  moreover have "ledgerFile (discovered q st) = ledgerFile st"
    "ledger_ok st \<longrightarrow> ledger_ok (discovered q st)"
    by (simp_all add: discovered_def ledger_ok_def)
  ultimately show ?thesis unfolding advances_def by blast
qed

lemma advances_asked: "advances st (asked q names st)"
proof -
  have "effects (asked q names st) = effects st @ [Suggest (build_suggestion_prompt q names)] \<and>
        \<not> list_ex is_save [Suggest (build_suggestion_prompt q names)]"
    by (simp add: asked_def is_save_def)
  moreover have "processedSpots (asked q names st) = processedSpots st @ []"
    by (simp add: asked_def)
  moreover have "ledgerFile (asked q names st) = ledgerFile st"
    "ledger_ok st \<longrightarrow> ledger_ok (asked q names st)"
    by (simp_all add: asked_def ledger_ok_def)
  ultimately show ?thesis unfolding advances_def by blast
qed

lemma advances_processPlaces:
  assumes "processPlaces W places st = (out, st')"
  shows "advances st st'"
proof -
  note l = assms[unfolded processPlaces_def]
  from loop_effects[OF l] obtain ws where
    ws: "effects st' = effects st @ ws" "\<forall>ev\<in>set ws. is_write ev" by blast
  have "\<not> list_ex is_save ws"
  proof
    assume "list_ex is_save ws"
    then obtain ev where "ev \<in> set ws" "is_save ev" by (auto simp: list_ex_iff)
    with ws(2) show False by (cases ev) (auto simp: is_save_def is_write_def)
  qed
  with ws have "effects st' = effects st @ ws \<and> \<not> list_ex is_save ws" by simp
  moreover from loop_spots[OF l] obtain new where "processedSpots st' = processedSpots st @ new"
    by blast
  moreover have "ledgerFile st' = ledgerFile st" using l by (rule loop_ledgerFile)
  moreover have "ledger_ok st \<longrightarrow> ledger_ok st'" using loop_ledger_ok[OF l] by blast
  ultimately show ?thesis unfolding advances_def by blast
qed

lemma main_loop_advances:
  "advances st (snd (main_loop W names q retryCount tn ts st))"
proof (induction W names q retryCount tn ts st rule: main_loop.induct)
  case (1 W names q retryCount tn ts st)
  show ?case
  proof (cases rule: main_loop_cases[where W = W and names = names and q = q and
      retryCount = retryCount and tn = tn and ts = ts and st = st])
    case stop
    then show ?thesis by (simp add: advances_refl)
  next
    case (fetch_error e)
    then show ?thesis by (simp add: advances_discovered)
  next
    case (batch_error places e st2)
    from advances_trans[OF advances_discovered advances_processPlaces[OF batch_error(3)]]
    show ?thesis using batch_error(4) by simp
  next
    case (finished places r st2)
    from advances_trans[OF advances_discovered advances_processPlaces[OF finished(3)]]
    show ?thesis using finished(5) by simp
  next
    case (give_up places r st2)
    from advances_trans[OF advances_discovered advances_processPlaces[OF give_up(3)]]
    have "advances st st2" .
    from advances_trans[OF this advances_asked] show ?thesis using give_up(6) by simp
  next
    case (retry places r st2 nq)
    from advances_trans[OF advances_discovered advances_processPlaces[OF retry(3)]]
    have "advances st st2" .
    from advances_trans[OF this advances_asked]
    have a: "advances st (asked q (names @ skippedNames r) st2)" .
    have "advances (asked q (names @ skippedNames r) st2)
            (snd (main_loop W names nq (retryCount + 1) (tn + newCount r) (ts + skippedCount r)
                    (asked q (names @ skippedNames r) st2)))"
      using retry by (intro "1.IH"[of places "Inr r" st2 r nq]) simp_all
    from advances_trans[OF a this] show ?thesis using retry(7) by simp
  qed
qed

lemma main_loop_after_discover:
  assumes "retryCount < MAX_RETRIES"
  shows "advances (discovered q st) (snd (main_loop W names q retryCount tn ts st))"
proof (cases rule: main_loop_cases[where W = W and names = names and q = q and
      retryCount = retryCount and tn = tn and ts = ts and st = st])
  case stop
  with assms show ?thesis by simp
next
  case (fetch_error e)
  then show ?thesis by (simp add: advances_refl)
next
  case (batch_error places e st2)
  from advances_processPlaces[OF batch_error(3)] show ?thesis using batch_error(4) by simp
next
  case (finished places r st2)
  from advances_processPlaces[OF finished(3)] show ?thesis using finished(5) by simp
next
  case (give_up places r st2)
  from advances_trans[OF advances_processPlaces[OF give_up(3)] advances_asked]
  show ?thesis using give_up(6) by simp
next
  case (retry places r st2 nq)
  from advances_trans[OF advances_processPlaces[OF retry(3)] advances_asked]
  have "advances (discovered q st) (asked q (names @ skippedNames r) st2)" .
  from advances_trans[OF this main_loop_advances] show ?thesis using retry(7) by simp
qed

lemma main_loop_count:
  "main_loop W names q retryCount tn ts st = (Inr rep, st') \<Longrightarrow>
     length (processedSpots st') + tn = length (processedSpots st) + reportedNew rep"
proof (induction W names q retryCount tn ts st rule: main_loop.induct)
  case (1 W names q retryCount tn ts st)
  have pp: "length (processedSpots s2) = length (processedSpots st) + newCount r"
    if "processPlaces W places (discovered q st) = (Inr r, s2)" for places r s2
  proof -
    from loop_spots[OF that[unfolded processPlaces_def]] obtain new where
      "processedSpots s2 = processedSpots (discovered q st) @ new" "newCount r = length new"
      by auto
    then show ?thesis by (simp add: discovered_def)
  qed
  show ?case
  proof (cases rule: main_loop_cases[where W = W and names = names and q = q and
      retryCount = retryCount and tn = tn and ts = ts and st = st])
    case stop
    with "1.prems" show ?thesis by auto
  next
    case (fetch_error e)
    with "1.prems" show ?thesis by simp
  next
    case (batch_error places e st2)
    with "1.prems" show ?thesis by simp
  next
    case (finished places r st2)
    with "1.prems" pp[OF finished(3)] show ?thesis by auto
  next
    case (give_up places r st2)
    with "1.prems" pp[OF give_up(3)] show ?thesis by (auto simp: asked_def)
  next
    case (retry places r st2 nq)
    have "length (processedSpots st') + (tn + newCount r) =
          length (processedSpots (asked q (names @ skippedNames r) st2)) + reportedNew rep"
      using retry "1.prems" by (intro "1.IH"[of places "Inr r" st2 r nq]) simp_all
    with pp[OF retry(3)] show ?thesis by (simp add: asked_def)
  qed
qed

subsection \<open>The claims about a run\<close>

lemma processPlaces_empty:
  "processPlaces W [] st = (Inr \<lparr> newCount = 0, skippedCount = 0, skippedNames = [] \<rparr>, st)"
  by (simp add: processPlaces_def)

lemma main_loop_empty_batch:
  assumes "retryCount < MAX_RETRIES" and "fetchPlaces W (clock st) q = Inr []"
  shows "main_loop W names q retryCount tn ts st =
           (Inr \<lparr> reportedNew = tn, reportedSkipped = ts, reportedRetries = retryCount \<rparr>,
            discovered q st)"
  using assms
  by (subst main_loop.simps) (simp add: processPlaces_empty duplicateRatio_def greater_than_def)

text \<open>
  Claim C9. A search that returns no place ends the loop at once: nothing is thrown, no
  suggestion is asked for, the totals stay as they are. When it is the first search of
  the run, the run reports zero new and zero skipped places and saves the ledger as it
  was loaded.
\<close>

theorem empty_batch_ends_run:
  "(retryCount < MAX_RETRIES \<longrightarrow> fetchPlaces W (clock st) q = Inr [] \<longrightarrow>
      main_loop W names q retryCount tn ts st =
        (Inr \<lparr> reportedNew = tn, reportedSkipped = ts, reportedRetries = retryCount \<rparr>,
         discovered q st)) \<and>
   (fetchPlaces W 0 (initial_query argument) = Inr [] \<longrightarrow>
      main W argument file =
        (Inr \<lparr> reportedNew = 0, reportedSkipped = 0, reportedRetries = 0 \<rparr>,
         \<lparr> processedSpots = loadProcessedSpots file,
           processedUris = set (map uri (loadProcessedSpots file)),
           ledgerFile = Some (loadProcessedSpots file),
           effects = [Discover (initial_query argument), SaveLedger (loadProcessedSpots file)],
           clock = 1 \<rparr>))"
proof (intro conjI impI)
  assume "retryCount < MAX_RETRIES" "fetchPlaces W (clock st) q = Inr []"
  then show "main_loop W names q retryCount tn ts st =
        (Inr \<lparr> reportedNew = tn, reportedSkipped = ts, reportedRetries = retryCount \<rparr>,
         discovered q st)"
    by (rule main_loop_empty_batch)
next
  assume f: "fetchPlaces W 0 (initial_query argument) = Inr []"
  let ?st0 = "\<lparr> processedSpots = loadProcessedSpots file,
                 processedUris = set (map uri (loadProcessedSpots file)),
                 ledgerFile = file, effects = [], clock = 0 \<rparr>"
  have "main_loop W (map name (loadProcessedSpots file)) (initial_query argument) 0 0 0 ?st0 =
          (Inr \<lparr> reportedNew = 0, reportedSkipped = 0, reportedRetries = 0 \<rparr>,
           discovered (initial_query argument) ?st0)"
    by (rule main_loop_empty_batch) (use f in \<open>simp_all add: MAX_RETRIES_def\<close>)
  then show "main W argument file =
        (Inr \<lparr> reportedNew = 0, reportedSkipped = 0, reportedRetries = 0 \<rparr>,
         \<lparr> processedSpots = loadProcessedSpots file,
           processedUris = set (map uri (loadProcessedSpots file)),
           ledgerFile = Some (loadProcessedSpots file),
           effects = [Discover (initial_query argument), SaveLedger (loadProcessedSpots file)],
           clock = 1 \<rparr>)"
    by (simp add: main_def Let_def discovered_def saveProcessedSpots_def)
qed

theorem empty_batch_ends_run_witness:
  "(2::nat) < MAX_RETRIES \<and> fetchPlaces empty_world (clock example_state) example_query = Inr [] \<and>
   main_loop empty_world [] example_query 2 4 7 example_state =
     (Inr \<lparr> reportedNew = 4, reportedSkipped = 7, reportedRetries = 2 \<rparr>,
      discovered example_query example_state) \<and>
   fetchPlaces empty_world 0 (initial_query None) = Inr [] \<and>
   main empty_world None None =
     (Inr \<lparr> reportedNew = 0, reportedSkipped = 0, reportedRetries = 0 \<rparr>,
      \<lparr> processedSpots = [], processedUris = {}, ledgerFile = Some [],
        effects = [Discover (ascii ''Laptop friendly specialty coffee madrid''), SaveLedger []],
        clock = 1 \<rparr>)"
proof -
  have a: "(2::nat) < MAX_RETRIES" by (simp add: MAX_RETRIES_def)
  have b: "fetchPlaces empty_world t q = Inr []" for t q
    by (simp add: empty_world_def example_world_def)
  from empty_batch_ends_run[of 2 empty_world example_state example_query "[]" 4 7 None None] a b
  show ?thesis by (simp add: loadProcessedSpots_def initial_query_def)
qed

text \<open>
  Claim C3. When more than half of a batch was skipped, fewer than five places were new
  and the retry count is below \<open>MAX_RETRIES - 1\<close>, one suggestion is asked for: the
  effects of the round are the search, the files written and that one request. An
  empty, failed or unchanged suggestion ends the loop there; any other one starts the
  next round, whose first effect is the search with the new query.
\<close>

theorem retry_evaluation:
  assumes "retryCount < MAX_RETRIES - 1"
      and "fetchPlaces W (clock st) q = Inr places"
      and "processPlaces W places (discovered q st) = (Inr r, st2)"
      and "greater_than (duplicateRatio (skippedCount r) (length places)) (1 / 2)"
      and "newCount r < 5"
  shows "(\<exists>ws. effects (asked q (names @ skippedNames r) st2) =
             effects st @ [Discover q] @ ws @
               [Suggest (build_suggestion_prompt q (names @ skippedNames r))] \<and>
             \<not> list_ex is_discover ws \<and> (\<forall>ev\<in>set ws. is_write ev)) \<and>
         (case suggestNewQuery W (clock st2) q (names @ skippedNames r) of
            None \<Rightarrow>
              main_loop W names q retryCount tn ts st =
                (Inr \<lparr> reportedNew = tn + newCount r, reportedSkipped = ts + skippedCount r,
                       reportedRetries = retryCount \<rparr>, asked q (names @ skippedNames r) st2)
          | Some nq \<Rightarrow>
              if nq = [] \<or> nq = q then
                main_loop W names q retryCount tn ts st =
                  (Inr \<lparr> reportedNew = tn + newCount r, reportedSkipped = ts + skippedCount r,
                         reportedRetries = retryCount \<rparr>, asked q (names @ skippedNames r) st2)
              else
                main_loop W names q retryCount tn ts st =
                  main_loop W names nq (retryCount + 1) (tn + newCount r) (ts + skippedCount r)
                    (asked q (names @ skippedNames r) st2) \<and>
                (\<exists>more. effects (snd (main_loop W names q retryCount tn ts st)) =
                   effects (asked q (names @ skippedNames r) st2) @ Discover nq # more))"
proof (intro conjI)
  from loop_effects[OF assms(3)[unfolded processPlaces_def]] obtain ws where
    ws: "effects st2 = effects (discovered q st) @ ws" "\<forall>ev\<in>set ws. is_write ev" by blast
  have "\<not> list_ex is_discover ws"
  proof
    assume "list_ex is_discover ws"
    then obtain ev where "ev \<in> set ws" "is_discover ev" by (auto simp: list_ex_iff)
    with ws(2) show False by (cases ev) (auto simp: is_discover_def is_write_def)
  qed
  with ws have "effects (asked q (names @ skippedNames r) st2) =
             effects st @ [Discover q] @ ws @
               [Suggest (build_suggestion_prompt q (names @ skippedNames r))] \<and>
             \<not> list_ex is_discover ws \<and> (\<forall>ev\<in>set ws. is_write ev)"
    by (simp add: asked_def discovered_def)
  then show "\<exists>ws. effects (asked q (names @ skippedNames r) st2) =
             effects st @ [Discover q] @ ws @
               [Suggest (build_suggestion_prompt q (names @ skippedNames r))] \<and>
             \<not> list_ex is_discover ws \<and> (\<forall>ev\<in>set ws. is_write ev)" by (rule exI)
next
  have budget: "retryCount < MAX_RETRIES" "retryCount + 1 < MAX_RETRIES"
    using assms(1) by (simp_all add: MAX_RETRIES_def)
  show "case suggestNewQuery W (clock st2) q (names @ skippedNames r) of
            None \<Rightarrow>
              main_loop W names q retryCount tn ts st =
                (Inr \<lparr> reportedNew = tn + newCount r, reportedSkipped = ts + skippedCount r,
                       reportedRetries = retryCount \<rparr>, asked q (names @ skippedNames r) st2)
          | Some nq \<Rightarrow>
              if nq = [] \<or> nq = q then
                main_loop W names q retryCount tn ts st =
                  (Inr \<lparr> reportedNew = tn + newCount r, reportedSkipped = ts + skippedCount r,
                         reportedRetries = retryCount \<rparr>, asked q (names @ skippedNames r) st2)
              else
                main_loop W names q retryCount tn ts st =
                  main_loop W names nq (retryCount + 1) (tn + newCount r) (ts + skippedCount r)
                    (asked q (names @ skippedNames r) st2) \<and>
                (\<exists>more. effects (snd (main_loop W names q retryCount tn ts st)) =
                   effects (asked q (names @ skippedNames r) st2) @ Discover nq # more)"
  proof (cases "suggestNewQuery W (clock st2) q (names @ skippedNames r)")
    case None
    with assms budget show ?thesis by (subst main_loop.simps) simp
  next
    case (Some nq)
    show ?thesis
    proof (cases "nq = [] \<or> nq = q")
      case True
      with Some assms budget show ?thesis by (subst main_loop.simps) auto
    next
      case False
      with Some assms budget have e: "main_loop W names q retryCount tn ts st =
                  main_loop W names nq (retryCount + 1) (tn + newCount r) (ts + skippedCount r)
                    (asked q (names @ skippedNames r) st2)"
        by (subst main_loop.simps) simp
      from main_loop_after_discover[OF budget(2)]
      have "advances (discovered nq (asked q (names @ skippedNames r) st2))
              (snd (main_loop W names nq (retryCount + 1) (tn + newCount r) (ts + skippedCount r)
                      (asked q (names @ skippedNames r) st2)))" .
      then obtain xs where
        "effects (snd (main_loop W names nq (retryCount + 1) (tn + newCount r) (ts + skippedCount r)
                      (asked q (names @ skippedNames r) st2))) =
         effects (discovered nq (asked q (names @ skippedNames r) st2)) @ xs"
        unfolding advances_def by blast
      then have "effects (snd (main_loop W names q retryCount tn ts st)) =
                   effects (asked q (names @ skippedNames r) st2) @ Discover nq # xs"
        using e by (simp add: discovered_def)
      then have "\<exists>more. effects (snd (main_loop W names q retryCount tn ts st)) =
                   effects (asked q (names @ skippedNames r) st2) @ Discover nq # more"
        by (rule exI)
      with e Some False show ?thesis by simp
    qed
  qed
qed

subsection \<open>The example run\<close>

lemma example_first_batch:
  "processPlaces example_world example_batch (discovered example_query example_state)
     = (Inr example_result, example_after_batch)"
proof -
  have "fst (processPlaces example_world example_batch (discovered example_query example_state))
          = Inr example_result"
    by (simp add: processPlaces_def processPlaces_loop.simps add_place_def split_beta Let_def
        example_world_def example_batch_def example_state_def example_ledger_def
        example_entry_def example_place_def example_result_def place_uri_def place_name_def
        discovered_def ascii_def)
  then show ?thesis by (simp add: example_after_batch_def prod_eq_iff)
qed

lemma example_suggestion:
  "suggestNewQuery example_world t q names = Some (ascii ''quiet cafes'')"
  by (simp add: suggestNewQuery_def example_world_def js_trim_def is_ws_def ascii_def)

lemma example_ratio:
  "greater_than (duplicateRatio (skippedCount example_result) (length example_batch)) (1 / 2)"
  by (simp add: greater_than_def duplicateRatio_def example_result_def example_batch_def)

theorem retry_evaluation_witness:
  "(0::nat) < MAX_RETRIES - 1 \<and>
   fetchPlaces example_world (clock example_state) example_query = Inr example_batch \<and>
   processPlaces example_world example_batch (discovered example_query example_state)
     = (Inr example_result, example_after_batch) \<and>
   greater_than (duplicateRatio (skippedCount example_result) (length example_batch)) (1 / 2) \<and>
   newCount example_result < 5 \<and>
   suggestNewQuery example_world (clock example_after_batch) example_query
     ([ascii ''Uno'', ascii ''Dos''] @ skippedNames example_result) = Some (ascii ''quiet cafes'') \<and>
   main_loop example_world [ascii ''Uno'', ascii ''Dos''] example_query 0 0 0 example_state =
     main_loop example_world [ascii ''Uno'', ascii ''Dos''] (ascii ''quiet cafes'') 1 1 2
       (asked example_query ([ascii ''Uno'', ascii ''Dos''] @ skippedNames example_result)
          example_after_batch)"
proof -
  have a: "(0::nat) < MAX_RETRIES - 1" by (simp add: MAX_RETRIES_def)
  have b: "fetchPlaces example_world (clock example_state) example_query = Inr example_batch"
    by (simp add: example_world_def example_state_def)
  have c: "newCount example_result < 5" by (simp add: example_result_def)
  have d: "ascii ''quiet cafes'' \<noteq> [] \<and> ascii ''quiet cafes'' \<noteq> example_query"
    by (simp add: ascii_def example_query_def)
  from retry_evaluation[OF a b example_first_batch example_ratio c,
      of "[ascii ''Uno'', ascii ''Dos'']" 0 0]
  show ?thesis
    using a b c d example_first_batch example_ratio
    by (simp add: example_suggestion example_result_def numeral_2_eq_2)
qed

theorem processPlaces_dedup_witness:
  "fst (processPlaces twice_world twice_batch example_state)
     = Inr \<lparr> newCount = 1, skippedCount = 1, skippedNames = [ascii ''Tres''] \<rparr> \<and>
   (1::nat) + 1 = length twice_batch \<and>
   place_uri (twice_batch ! 1) \<notin> processedUris example_state \<and>
   place_uri (twice_batch ! 1)
     \<in> processedUris (snd (processPlaces twice_world (take 1 twice_batch) example_state)) \<and>
   fst (processPlaces twice_world (take 1 twice_batch) example_state)
     = Inr \<lparr> newCount = 1, skippedCount = 0, skippedNames = [] \<rparr> \<and>
   processPlaces twice_world (take 2 twice_batch) example_state
     = (Inr \<lparr> newCount = 1, skippedCount = 1, skippedNames = [ascii ''Tres''] \<rparr>,
        snd (processPlaces twice_world (take 1 twice_batch) example_state))"
proof -
  let ?r = "\<lparr> newCount = 1, skippedCount = 1, skippedNames = [ascii ''Tres''] \<rparr>"
  let ?r1 = "\<lparr> newCount = 1, skippedCount = 0, skippedNames = [] \<rparr>"
  have "fst (processPlaces twice_world twice_batch example_state) = Inr ?r"
    by (simp add: processPlaces_def processPlaces_loop.simps add_place_def split_beta Let_def
        twice_world_def twice_batch_def example_world_def example_state_def example_ledger_def
        example_entry_def example_place_def place_uri_def place_name_def ascii_def)
  then obtain st' where all: "processPlaces twice_world twice_batch example_state = (Inr ?r, st')"
    by (cases "processPlaces twice_world twice_batch example_state") auto
  have "fst (processPlaces twice_world (take 1 twice_batch) example_state) = Inr ?r1 \<and>
        place_uri (twice_batch ! 1)
          \<in> processedUris (snd (processPlaces twice_world (take 1 twice_batch) example_state))"
    by (simp add: processPlaces_def processPlaces_loop.simps add_place_def split_beta Let_def
        twice_world_def twice_batch_def example_world_def example_state_def example_ledger_def
        example_entry_def example_place_def place_uri_def place_name_def ascii_def)
  then obtain sa where one: "processPlaces twice_world (take 1 twice_batch) example_state = (Inr ?r1, sa)"
    and u: "place_uri (twice_batch ! 1) \<in> processedUris sa"
    by (cases "processPlaces twice_world (take 1 twice_batch) example_state") auto
  have nu: "place_uri (twice_batch ! 1) \<notin> processedUris example_state"
    by (simp add: twice_batch_def example_place_def place_uri_def example_state_def
        example_ledger_def example_entry_def ascii_def)
  have l: "(1::nat) < length twice_batch" by (simp add: twice_batch_def)
  have n: "place_name (twice_batch ! Suc 0) = ascii ''Tres''"
    by (simp add: twice_batch_def example_place_def place_name_def ascii_def)
  from processPlaces_dedup[of twice_world twice_batch example_state] all
  have s: "newCount ?r + skippedCount ?r = length twice_batch" by blast
  from processPlaces_dedup[of twice_world twice_batch example_state] l one u
  have "processPlaces twice_world (take (Suc 1) twice_batch) example_state =
         (Inr (?r1\<lparr> skippedCount := skippedCount ?r1 + 1,
                   skippedNames := skippedNames ?r1 @ [place_name (twice_batch ! 1)] \<rparr>), sa)"
    by blast
  then have two: "processPlaces twice_world (take 2 twice_batch) example_state = (Inr ?r, sa)"
    by (simp add: n numeral_2_eq_2)
  from all s nu u one two show ?thesis by simp
qed

subsection \<open>Saving the ledger\<close>

lemma main_keeps_ledger:
  assumes "main W argument file = (out, st)"
  shows "ledger_ok \<lparr> processedSpots = loadProcessedSpots file,
                     processedUris = set (map uri (loadProcessedSpots file)),
                     ledgerFile = file, effects = [], clock = 0 \<rparr> \<longrightarrow> ledger_ok st"
    and "case out of
           Inl e \<Rightarrow> ledgerFile st = file \<and> \<not> list_ex is_save (effects st)
         | Inr rep \<Rightarrow>
             ledgerFile st = Some (processedSpots st) \<and>
             (\<exists>xs new. effects st = xs @ [SaveLedger (processedSpots st)] \<and>
                \<not> list_ex is_save xs \<and>
                processedSpots st = loadProcessedSpots file @ new \<and>
                length new = reportedNew rep)"
proof -
  let ?st0 = "\<lparr> processedSpots = loadProcessedSpots file,
                 processedUris = set (map uri (loadProcessedSpots file)),
                 ledgerFile = file, effects = [], clock = 0 \<rparr>"
  let ?run = "main_loop W (map name (loadProcessedSpots file)) (initial_query argument) 0 0 0 ?st0"
  obtain o1 s where run: "?run = (o1, s)" by (cases ?run) auto
  have "advances ?st0 (snd ?run)" by (rule main_loop_advances)
  with run have adv: "advances ?st0 s" by simp
  then obtain xs new where
    lf: "ledgerFile s = file" and ok: "ledger_ok ?st0 \<longrightarrow> ledger_ok s"
    and xs: "effects s = xs" "\<not> list_ex is_save xs"
    and new: "processedSpots s = loadProcessedSpots file @ new"
    unfolding advances_def by auto
  show "ledger_ok ?st0 \<longrightarrow> ledger_ok st"
  proof (cases o1)
    case (Inl e)
    with run assms have "st = s" by (simp add: main_def Let_def)
    with ok show ?thesis by simp
  next
    case (Inr rep)
    with run assms have "st = saveProcessedSpots (processedSpots s) s"
      by (simp add: main_def Let_def)
    with ok show ?thesis by (simp add: saveProcessedSpots_def ledger_ok_def)
  qed
  show "case out of
           Inl e \<Rightarrow> ledgerFile st = file \<and> \<not> list_ex is_save (effects st)
         | Inr rep \<Rightarrow>
             ledgerFile st = Some (processedSpots st) \<and>
             (\<exists>xs new. effects st = xs @ [SaveLedger (processedSpots st)] \<and>
                \<not> list_ex is_save xs \<and>
                processedSpots st = loadProcessedSpots file @ new \<and>
                length new = reportedNew rep)"
  proof (cases o1)
    case (Inl e)
    with run assms have "out = Inl e" "st = s" by (simp_all add: main_def Let_def)
    with lf xs show ?thesis by simp
  next
    case (Inr rep)
    with run assms have o: "out = Inr rep" and st: "st = saveProcessedSpots (processedSpots s) s"
      by (simp_all add: main_def Let_def)
    from main_loop_count[OF run[unfolded Inr]] new have len: "length new = reportedNew rep"
      by simp
    have "effects st = xs @ [SaveLedger (processedSpots st)] \<and> \<not> list_ex is_save xs \<and>
          processedSpots st = loadProcessedSpots file @ new \<and> length new = reportedNew rep"
      using st xs new len by (simp add: saveProcessedSpots_def)
    then have "\<exists>xs new. effects st = xs @ [SaveLedger (processedSpots st)] \<and>
                \<not> list_ex is_save xs \<and>
                processedSpots st = loadProcessedSpots file @ new \<and>
                length new = reportedNew rep" by blast
    moreover have "ledgerFile st = Some (processedSpots st)"
      using st by (simp add: saveProcessedSpots_def)
    ultimately show ?thesis using o by simp
  qed
qed

text \<open>
  Claim C5, as amended. The ledger is written once, after the loop: a run that ends
  without an exception has one save, as its last effect, of the whole ledger in memory,
  which is the loaded ledger followed by the entries of all the rounds; a run ended by
  an exception has no save and leaves the ledger file as it was.
\<close>

theorem ledger_saved_once:
  assumes "main W argument file = (out, st)"
  shows "case out of
           Inl e \<Rightarrow> ledgerFile st = file \<and> \<not> list_ex is_save (effects st)
         | Inr rep \<Rightarrow>
             ledgerFile st = Some (processedSpots st) \<and>
             (\<exists>xs new. effects st = xs @ [SaveLedger (processedSpots st)] \<and>
                \<not> list_ex is_save xs \<and>
                processedSpots st = loadProcessedSpots file @ new \<and>
                length new = reportedNew rep)"
  using assms by (rule main_keeps_ledger(2))

lemma example_after_batch_effects:
  "map is_save (effects example_after_batch) = [False, False] \<and>
   map is_discover (effects example_after_batch) = [True, False] \<and>
   clock example_after_batch = 2 \<and>
   map uri (processedSpots example_after_batch) = [ascii ''u1'', ascii ''u2'', ascii ''u3'']"
  by (simp add: example_after_batch_def processPlaces_def processPlaces_loop.simps add_place_def
      split_beta Let_def example_world_def example_batch_def example_state_def
      example_ledger_def example_entry_def example_place_def place_uri_def place_name_def
      discovered_def ascii_def is_save_def is_discover_def)

lemma example_run:
  "main example_world (Some example_query) (Some example_ledger) =
     (Inr \<lparr> reportedNew = 1, reportedSkipped = 2, reportedRetries = 1 \<rparr>,
      saveProcessedSpots (processedSpots example_after_batch)
        (discovered (ascii ''quiet cafes'')
           (asked example_query ([ascii ''Uno'', ascii ''Dos''] @ skippedNames example_result)
              example_after_batch)))"
proof -
  let ?names = "[ascii ''Uno'', ascii ''Dos'']"
  let ?st3 = "asked example_query (?names @ skippedNames example_result) example_after_batch"
  have f: "fetchPlaces example_world (clock example_state) example_query = Inr example_batch"
    by (simp add: example_world_def example_state_def)
  have d: "ascii ''quiet cafes'' \<noteq> [] \<and> ascii ''quiet cafes'' \<noteq> example_query"
    by (simp add: ascii_def example_query_def)
  have c: "newCount example_result < 5" by (simp add: example_result_def)
  have one: "main_loop example_world ?names example_query 0 0 0 example_state =
          main_loop example_world ?names (ascii ''quiet cafes'') 1 1 2 ?st3"
    using f d c example_ratio
    by (subst main_loop.simps)
       (simp add: example_first_batch example_suggestion MAX_RETRIES_def example_result_def
          numeral_2_eq_2)
  have "fetchPlaces example_world (clock ?st3) (ascii ''quiet cafes'') = Inr []"
    by (simp add: example_world_def asked_def)
  then have two: "main_loop example_world ?names (ascii ''quiet cafes'') 1 1 2 ?st3 =
      (Inr \<lparr> reportedNew = 1, reportedSkipped = 2, reportedRetries = 1 \<rparr>,
       discovered (ascii ''quiet cafes'') ?st3)"
    by (intro main_loop_empty_batch) (simp_all add: MAX_RETRIES_def)
  have q: "initial_query (Some example_query) = example_query"
    by (simp add: initial_query_def example_query_def ascii_def)
  have n: "map name (loadProcessedSpots (Some example_ledger)) = ?names"
    by (simp add: loadProcessedSpots_def example_ledger_def example_entry_def)
  have s: "\<lparr> processedSpots = loadProcessedSpots (Some example_ledger),
             processedUris = set (map uri (loadProcessedSpots (Some example_ledger))),
             ledgerFile = Some example_ledger, effects = [], clock = 0 \<rparr> = example_state"
    by (simp add: example_state_def loadProcessedSpots_def)
  show ?thesis
    unfolding main_def Let_def q n s one two by (simp add: discovered_def asked_def)
qed

theorem ledger_saved_once_witness:
  "main example_world (Some example_query) (Some example_ledger) =
     (Inr \<lparr> reportedNew = 1, reportedSkipped = 2, reportedRetries = 1 \<rparr>,
      snd (main example_world (Some example_query) (Some example_ledger))) \<and>
   ledgerFile (snd (main example_world (Some example_query) (Some example_ledger))) =
     Some (processedSpots (snd (main example_world (Some example_query) (Some example_ledger)))) \<and>
   (\<exists>xs new.
      effects (snd (main example_world (Some example_query) (Some example_ledger))) =
        xs @ [SaveLedger (processedSpots (snd (main example_world (Some example_query)
                                                  (Some example_ledger))))] \<and>
      \<not> list_ex is_save xs \<and>
      processedSpots (snd (main example_world (Some example_query) (Some example_ledger))) =
        example_ledger @ new \<and>
      length new = 1)"
proof -
  have e: "main example_world (Some example_query) (Some example_ledger) =
     (Inr \<lparr> reportedNew = 1, reportedSkipped = 2, reportedRetries = 1 \<rparr>,
      snd (main example_world (Some example_query) (Some example_ledger)))"
    by (simp add: example_run)
  from ledger_saved_once[OF e] e show ?thesis by (simp add: loadProcessedSpots_def)
qed

text \<open>
  Claim C5 as stated fails on the example run: its effects are a search, a file, a
  request for a suggestion, the second search and only then the one save, so the entry
  of the first round is not in the ledger file when the second round starts.
\<close>

theorem ledger_saved_per_batch_counterexample:
  "fst (main example_world (Some example_query) (Some example_ledger)) =
     Inr \<lparr> reportedNew = 1, reportedSkipped = 2, reportedRetries = 1 \<rparr> \<and>
   map is_discover (effects (snd (main example_world (Some example_query) (Some example_ledger))))
     = [True, False, False, True, False] \<and>
   map is_save (effects (snd (main example_world (Some example_query) (Some example_ledger))))
     = [False, False, False, False, True] \<and>
   \<not> saved_per_batch False
       (effects (snd (main example_world (Some example_query) (Some example_ledger))))"
proof -
  from example_after_batch_effects obtain a b where
    ab: "effects example_after_batch = [a, b]" "is_discover a" "\<not> is_discover b"
      "\<not> is_save a" "\<not> is_save b"
    by (cases "effects example_after_batch"; cases "tl (effects example_after_batch)") auto
  obtain q where a: "a = Discover q" using ab(2) by (cases a) (auto simp: is_discover_def)
  have b: "\<not> saved_per_batch True (b # Suggest p # Discover q2 # evs)" for p q2 evs
    using ab(3,5) by (cases b) (auto simp: is_discover_def is_save_def)
  show ?thesis
    using ab b by (simp add: example_run saveProcessedSpots_def discovered_def asked_def a
        is_discover_def is_save_def)
qed







section \<open>The keys of the ledgers\<close>

lemma main_keeps_distinct:
  assumes "distinct (map uri (loadProcessedSpots file))"
  shows "distinct (map uri (loadProcessedSpots (ledgerFile (snd (main W argument file)))))"
proof -
  obtain out st where m: "main W argument file = (out, st)" by (cases "main W argument file") auto
  have "ledger_ok \<lparr> processedSpots = loadProcessedSpots file,
                     processedUris = set (map uri (loadProcessedSpots file)),
                     ledgerFile = file, effects = [], clock = 0 \<rparr>"
    using assms by (simp add: ledger_ok_def)
  with main_keeps_ledger(1)[OF m] have ok: "ledger_ok st" by simp
  show ?thesis
  proof (cases out)
    case (Inl e)
    with main_keeps_ledger(2)[OF m] have "ledgerFile st = file" by simp
    with assms m show ?thesis by simp
  next
    case (Inr rep)
    with main_keeps_ledger(2)[OF m] have "ledgerFile st = Some (processedSpots st)" by simp
    with ok m show ?thesis by (simp add: loadProcessedSpots_def ledger_ok_def)
  qed
qed

lemma ingest_runs_distinct:
  "distinct (map uri (loadProcessedSpots stored)) \<Longrightarrow>
   distinct (map uri (loadProcessedSpots (ingest_runs runs stored)))"
proof (induction runs arbitrary: stored)
  case Nil
  then show ?case by simp
next
  case (Cons run runs)
  obtain W argument where r: "run = (W, argument)" by (cases run) auto
  from Cons.IH[OF main_keeps_distinct[OF Cons.prems, of W argument]] show ?case
    by (simp add: r)
qed

lemma refine_loop_step:
  "\<exists>st'. refine_loop R single (f # fs) st = refine_loop R single fs st' \<and>
         ((refinedFile st' = refinedFile st \<and> refinedSpots st' = refinedSpots st) \<or>
          (\<not> single \<and> (\<exists>en. filename en = f \<and> refinedSpots st' = refinedSpots st @ [en] \<and>
                refinedFile st' = Some (refinedSpots st @ [en]))))"
proof (cases "spotFiles st f")
  case None
  then show ?thesis by (intro exI[of _ "st\<lparr> refineClock := refineClock st + 1 \<rparr>"]) simp
next
  case (Some content)
  show ?thesis
  proof (cases "parseMdx content")
    case (Inl e)
    with Some show ?thesis by (intro exI[of _ "st\<lparr> refineClock := refineClock st + 1 \<rparr>"]) simp
  next
    case (Inr parsed)
    define spot where "spot = (case find_field title_key 1 (frontmatter parsed) of
                              None \<Rightarrow> remove_first (ascii ''.mdx'') f
                            | Some (p, m, v, r) \<Rightarrow> v)"
    define hood where "hood = (case find_field neighborhood_key 1 (frontmatter parsed) of
                              None \<Rightarrow> ascii ''Madrid''
                            | Some (p, m, v, r) \<Rightarrow> v)"
    show ?thesis
    proof (cases "refineReview R (refineClock st) spot hood (body parsed)")
      case (Inl e)
      with Some Inr show ?thesis
        by (intro exI[of _ "st\<lparr> refineClock := refineClock st + 1 \<rparr>"])
           (simp add: Let_def spot_def hood_def)
    next
      case rb: (Inr refinedBody)
      define author where "author = selectRandomAuthor (random R (refineClock st))"
      define en where "en = \<lparr> filename = f, spotName = spot,
                               refinedAt = refinedNow R (refineClock st) \<rparr>"
      show ?thesis
      proof (cases single)
        case True
        with Some Inr rb show ?thesis
          by (intro exI[of _ "st\<lparr> spotFiles := (spotFiles st)
                                  (f \<mapsto> buildMdx (frontmatter parsed) refinedBody author),
                                processed := processed st + 1,
                                refineClock := refineClock st + 1 \<rparr>"])
             (simp add: Let_def spot_def hood_def author_def)
      next
        case False
        with Some Inr rb show ?thesis
          by (intro exI[of _ "st\<lparr> spotFiles := (spotFiles st)
                                  (f \<mapsto> buildMdx (frontmatter parsed) refinedBody author),
                                refinedSpots := refinedSpots st @ [en],
                                refinedFile := Some (refinedSpots st @ [en]),
                                processed := processed st + 1,
                                refineClock := refineClock st + 1 \<rparr>"])
             (simp add: Let_def spot_def hood_def author_def en_def)
      qed
    qed
  qed
qed

declare refine_loop.simps(2) [simp del]

lemma refine_loop_single:
  "refinedFile (refine_loop R True fs st) = refinedFile st"
proof (induction fs arbitrary: st)
  case Nil
  show ?case by simp
next
  case (Cons f fs)
  from refine_loop_step[of R True f fs st] obtain st' where
    "refine_loop R True (f # fs) st = refine_loop R True fs st'" "refinedFile st' = refinedFile st"
    by auto
  with Cons.IH[of st'] show ?case by simp
qed

lemma refine_loop_batch:
  "refine_ok fs st \<Longrightarrow>
   distinct (map filename (loadRefinedSpots (refinedFile (refine_loop R False fs st))))"
proof (induction fs arbitrary: st)
  case Nil
  then show ?case by (simp add: refine_ok_def)
next
  case (Cons f fs)
  from Cons.prems have ok: "loadRefinedSpots (refinedFile st) = refinedSpots st"
    "distinct (map filename (refinedSpots st))" "distinct fs" "f \<notin> set fs"
    "f \<notin> set (map filename (refinedSpots st))"
    "set fs \<inter> set (map filename (refinedSpots st)) = {}"
    by (auto simp: refine_ok_def)
  from refine_loop_step[of R False f fs st] obtain st' where
    step: "refine_loop R False (f # fs) st = refine_loop R False fs st'"
    and alt: "(refinedFile st' = refinedFile st \<and> refinedSpots st' = refinedSpots st) \<or>
          (\<exists>en. filename en = f \<and> refinedSpots st' = refinedSpots st @ [en] \<and>
                refinedFile st' = Some (refinedSpots st @ [en]))"
    by auto
  from alt have "refine_ok fs st'"
  proof
    assume "refinedFile st' = refinedFile st \<and> refinedSpots st' = refinedSpots st"
    with ok show ?thesis by (simp add: refine_ok_def)
  next
    assume "\<exists>en. filename en = f \<and> refinedSpots st' = refinedSpots st @ [en] \<and>
                refinedFile st' = Some (refinedSpots st @ [en])"
    then obtain en where "filename en = f" "refinedSpots st' = refinedSpots st @ [en]"
      "refinedFile st' = Some (refinedSpots st @ [en])" by blast
    with ok show ?thesis by (auto simp: refine_ok_def loadRefinedSpots_def)
  qed
  from Cons.IH[OF this] step show ?case by simp
qed

lemma refine_main_distinct:
  assumes "distinct (map filename (loadRefinedSpots ledger))" and "distinct dir"
  shows "distinct (map filename
           (loadRefinedSpots (refinedFile (snd (refine_main R argument dir files ledger)))))"
proof (cases "case argument of None \<Rightarrow> None | Some a \<Rightarrow> if a \<noteq> [] then Some a else None")
  case (Some singleFile)
  then show ?thesis using assms(1)
    by (simp add: refine_main_def Let_def refine_loop_single)
next
  case None
  let ?fs = "filter (\<lambda>f. f \<notin> set (map filename (loadRefinedSpots ledger)))
               (filter (\<lambda>f. f \<noteq> ascii ''example-spot.mdx'')
                  (filter (\<lambda>f. ends_with f (ascii ''.mdx'')) dir))"
  let ?st = "\<lparr> spotFiles = files, refinedFile = ledger, refinedSpots = loadRefinedSpots ledger,
               processed = 0, refineClock = 0 \<rparr>"
  have "refine_ok ?fs ?st" using assms by (auto simp: refine_ok_def)
  from refine_loop_batch[OF this, of R] None assms(1) show ?thesis
    by (simp add: refine_main_def Let_def)
qed

lemma refine_runs_distinct:
  "distinct (map filename (loadRefinedSpots ledger)) \<Longrightarrow>
   \<forall>run\<in>set runs. distinct (fst (snd (snd run))) \<Longrightarrow>
   distinct (map filename (loadRefinedSpots (refine_runs runs ledger)))"
proof (induction runs arbitrary: ledger)
  case Nil
  then show ?case by simp
next
  case (Cons run runs)
  obtain R argument dir files where r: "run = (R, argument, dir, files)" by (cases run) auto
  with Cons.prems(2) have d: "distinct dir" and rest: "\<forall>run\<in>set runs. distinct (fst (snd (snd run)))"
    by auto
  from Cons.IH[OF refine_main_distinct[OF Cons.prems(1) d, of R argument files] rest]
  show ?case by (simp add: r)
qed

text \<open>
  Claim C8. Whatever runs of a script follow one another, each loading the ledger file
  the run before it saved, a ledger whose keys are distinct keeps distinct keys: the
  URIs of the ingestion ledger, also when a batch holds the same URI twice, and the
  file names of the refinement ledger, a directory listing naming each file once.
\<close>

theorem ledger_keys_stay_distinct:
  "(distinct (map uri (loadProcessedSpots file)) \<longrightarrow>
      distinct (map uri (loadProcessedSpots (ingest_runs runs file)))) \<and>
   (distinct (map filename (loadRefinedSpots ledger)) \<longrightarrow>
    (\<forall>run\<in>set rruns. distinct (fst (snd (snd run)))) \<longrightarrow>
      distinct (map filename (loadRefinedSpots (refine_runs rruns ledger))))"
  using ingest_runs_distinct refine_runs_distinct by blast

lemma twice_run:
  "map uri (loadProcessedSpots (ledgerFile (snd (main twice_world None (Some example_ledger)))))
     = [ascii ''u1'', ascii ''u2'', ascii ''u3'']"
proof -
  let ?q = "initial_query None"
  let ?batch = "twice_batch"
  let ?st1 = "discovered ?q example_state"
  let ?r = "\<lparr> newCount = 1, skippedCount = 1, skippedNames = [ascii ''Tres''] \<rparr>"
  have "fst (processPlaces twice_world ?batch ?st1) = Inr ?r \<and>
        map uri (processedSpots (snd (processPlaces twice_world ?batch ?st1)))
          = [ascii ''u1'', ascii ''u2'', ascii ''u3'']"
    by (simp add: processPlaces_def processPlaces_loop.simps add_place_def split_beta Let_def
        twice_world_def twice_batch_def example_world_def example_state_def example_ledger_def
        example_entry_def example_place_def place_uri_def place_name_def discovered_def ascii_def)
  then obtain st2 where pp: "processPlaces twice_world ?batch ?st1 = (Inr ?r, st2)"
    and u: "map uri (processedSpots st2) = [ascii ''u1'', ascii ''u2'', ascii ''u3'']"
    by (cases "processPlaces twice_world ?batch ?st1") auto
  have f: "fetchPlaces twice_world (clock example_state) ?q = Inr ?batch"
    by (simp add: twice_world_def example_world_def)
  have g: "\<not> greater_than (duplicateRatio (skippedCount ?r) (length ?batch)) (1 / 2)"
    by (simp add: greater_than_def duplicateRatio_def twice_batch_def)
  have "main_loop twice_world (map name example_ledger) ?q 0 0 0 example_state =
          (Inr \<lparr> reportedNew = 1, reportedSkipped = 1, reportedRetries = 0 \<rparr>, st2)"
    using f pp g by (subst main_loop.simps) (simp add: MAX_RETRIES_def)
  moreover have "\<lparr> processedSpots = loadProcessedSpots (Some example_ledger),
             processedUris = set (map uri (loadProcessedSpots (Some example_ledger))),
             ledgerFile = Some example_ledger, effects = [], clock = 0 \<rparr> = example_state"
    by (simp add: example_state_def loadProcessedSpots_def)
  moreover have "loadProcessedSpots (Some example_ledger) = example_ledger"
    by (simp add: loadProcessedSpots_def)
  ultimately have "main twice_world None (Some example_ledger) =
      (Inr \<lparr> reportedNew = 1, reportedSkipped = 1, reportedRetries = 0 \<rparr>,
       saveProcessedSpots (processedSpots st2) st2)"
    by (simp add: main_def Let_def)
  then show ?thesis
    using u by (simp add: loadProcessedSpots_def saveProcessedSpots_def)
qed

theorem ledger_keys_stay_distinct_witness:
  "distinct (map uri (loadProcessedSpots (Some example_ledger))) \<and>
   map uri (loadProcessedSpots (ingest_runs [(twice_world, None)] (Some example_ledger)))
     = [ascii ''u1'', ascii ''u2'', ascii ''u3''] \<and>
   distinct (map uri (loadProcessedSpots
     (ingest_runs [(twice_world, None), (example_world, Some example_query)] (Some example_ledger)))) \<and>
   distinct (map filename (loadRefinedSpots (Some example_refined))) \<and>
   distinct example_dir \<and>
   distinct (map filename (loadRefinedSpots
     (refine_runs [(example_refine_world, None, example_dir, [ascii ''sol-toma.mdx'' \<mapsto> example_file]),
                   (example_refine_world, None, example_dir, [ascii ''sol-toma.mdx'' \<mapsto> example_file])]
        (Some example_refined))))"
proof -
  have a: "distinct (map uri (loadProcessedSpots (Some example_ledger)))"
    by (simp add: loadProcessedSpots_def example_ledger_def example_entry_def ascii_def)
  have b: "distinct (map filename (loadRefinedSpots (Some example_refined)))"
    by (simp add: loadRefinedSpots_def example_refined_def)
  have c: "distinct example_dir" by (simp add: example_dir_def ascii_def)
  have d: "\<forall>run\<in>set [(example_refine_world, None, example_dir, [ascii ''sol-toma.mdx'' \<mapsto> example_file]),
                   (example_refine_world, None, example_dir, [ascii ''sol-toma.mdx'' \<mapsto> example_file])].
             distinct (fst (snd (snd run)))"
    using c by simp
  from ledger_keys_stay_distinct[of "Some example_ledger"
         "[(twice_world, None), (example_world, Some example_query)]" "Some example_refined"
         "[(example_refine_world, None, example_dir, [ascii ''sol-toma.mdx'' \<mapsto> example_file]),
           (example_refine_world, None, example_dir, [ascii ''sol-toma.mdx'' \<mapsto> example_file])]"]
       a b d
  have "distinct (map uri (loadProcessedSpots
     (ingest_runs [(twice_world, None), (example_world, Some example_query)] (Some example_ledger))))"
    and "distinct (map filename (loadRefinedSpots
     (refine_runs [(example_refine_world, None, example_dir, [ascii ''sol-toma.mdx'' \<mapsto> example_file]),
                   (example_refine_world, None, example_dir, [ascii ''sol-toma.mdx'' \<mapsto> example_file])]
        (Some example_refined))))"
    by blast+
  with a b c twice_run show ?thesis by simp
qed


end
